theory Spec2Isabelle
  imports Main "HOL-Library.Word"
begin

section \<open>The image-to-records gateway of Rips-backend\<close>

text \<open>
  The repository holds four versions of one Express application whose only route with logic is
  \<^verbatim>\<open>POST /api/process-image\<close>: \<^verbatim>\<open>src/server.js\<close> and \<^verbatim>\<open>src/unnamed/part_000\<close> (the same
  control flow; they differ in the prompt and the model name), \<^verbatim>\<open>src/unnamed/part_001\<close> and
  \<^verbatim>\<open>src/unnamed/part_002\<close>. Each handler is embedded as a function from the environment, the
  reply of the inference endpoint and the request body to the upstream calls made and the
  HTTP response sent. \<^verbatim>\<open>console.log\<close> output is not part of the model, the expressions inside
  a log call that can throw are.
\<close>

subsection \<open>JavaScript strings\<close>

text \<open>
  A JavaScript string is a sequence of UTF-16 code units. \<open>lit\<close> embeds an ASCII literal;
  the few non-ASCII characters of the source's messages are given by their code unit.
\<close>

type_synonym code_unit = "16 word"
type_synonym js_string = "code_unit list"

definition lit :: "string \<Rightarrow> js_string" where
  "lit s = map (\<lambda>c. of_nat (of_char c)) s"

text \<open>A literal pattern matches at the head of a string.\<close>

fun starts_with :: "'a list \<Rightarrow> 'a list \<Rightarrow> bool" where
  "starts_with [] s = True"
| "starts_with (p # ps) [] = False"
| "starts_with (p # ps) (x # xs) = (p = x \<and> starts_with ps xs)"

text \<open>
  \<^verbatim>\<open>s.replace(/p/g, '')\<close> for a literal, non-empty pattern \<open>p\<close>: the matches are found from
  left to right, each search resuming after the previous match, and are deleted.
\<close>

function remove_all :: "'a list \<Rightarrow> 'a list \<Rightarrow> 'a list" where
  "remove_all p [] = []"
| "remove_all p (x # xs) =
     (if p \<noteq> [] \<and> starts_with p (x # xs) then remove_all p (drop (length p) (x # xs))
      else x # remove_all p xs)"
  by pat_completeness auto
termination
  by (relation "measure (\<lambda>(p, s). length s)") (auto simp: neq_Nil_conv)

text \<open>
  \<^verbatim>\<open>String.prototype.trim\<close> removes the code units of ECMAScript's WhiteSpace and
  LineTerminator productions from both ends.
\<close>

definition is_white_space :: "code_unit \<Rightarrow> bool" where
  "is_white_space c \<longleftrightarrow>
     c = 0x0009 \<or> c = 0x000A \<or> c = 0x000B \<or> c = 0x000C \<or> c = 0x000D \<or> c = 0x0020 \<or>
     c = 0x00A0 \<or> c = 0x1680 \<or> (0x2000 \<le> c \<and> c \<le> 0x200A) \<or> c = 0x2028 \<or> c = 0x2029 \<or>
     c = 0x202F \<or> c = 0x205F \<or> c = 0x3000 \<or> c = 0xFEFF"

definition trim :: "js_string \<Rightarrow> js_string" where
  "trim s = rev (dropWhile is_white_space (rev (dropWhile is_white_space s)))"

definition fence_json :: js_string where
  "fence_json = lit ''```json''"

definition fence :: js_string where
  "fence = lit ''```''"

text \<open>
  The cleanup every version applies to the generated text (server.js lines 136-139,
  part_001 line 70, part_002 lines 97-100):
  \<^verbatim>\<open>.replace(/```json/g, '').replace(/```/g, '').trim()\<close>.
\<close>

definition cleanJson :: "js_string \<Rightarrow> js_string" where
  "cleanJson rawText = trim (remove_all fence (remove_all fence_json rawText))"

text \<open>\<open>occurs p s\<close>: the pattern \<open>p\<close> occurs in \<open>s\<close> as a block of consecutive code units.\<close>

fun occurs :: "'a list \<Rightarrow> 'a list \<Rightarrow> bool" where
  "occurs p [] = (p = [])"
| "occurs p (x # xs) = (starts_with p (x # xs) \<or> occurs p xs)"

subsection \<open>JSON values and \<^verbatim>\<open>JSON.parse\<close>\<close>

text \<open>
  The values \<^verbatim>\<open>JSON.parse\<close> produces. A number keeps the text of its literal: the double it
  denotes is left to the engine (see \<open>runtime\<close> below), so that no floating point arithmetic
  enters the model. An object keeps its members as written, in order; reading a property
  takes the last member of that name, as \<^verbatim>\<open>JSON.parse\<close> does with duplicate names.
\<close>

datatype json =
    JNull
  | JBool bool
  | JNum js_string
  | JStr js_string
  | JArr "json list"
  | JObj "(js_string \<times> json) list"

text \<open>JSON whitespace is tab, line feed, carriage return and space only.\<close>

definition is_json_ws :: "code_unit \<Rightarrow> bool" where
  "is_json_ws c \<longleftrightarrow> c = 0x09 \<or> c = 0x0A \<or> c = 0x0D \<or> c = 0x20"

definition skip_ws :: "js_string \<Rightarrow> js_string" where
  "skip_ws s = dropWhile is_json_ws s"

definition is_digit :: "code_unit \<Rightarrow> bool" where
  "is_digit c \<longleftrightarrow> 0x30 \<le> c \<and> c \<le> 0x39"

definition hex_digit :: "code_unit \<Rightarrow> code_unit option" where
  "hex_digit c =
     (if 0x30 \<le> c \<and> c \<le> 0x39 then Some (c - 0x30)
      else if 0x41 \<le> c \<and> c \<le> 0x46 then Some (c - 0x37)
      else if 0x61 \<le> c \<and> c \<le> 0x66 then Some (c - 0x57)
      else None)"

definition hex4 :: "code_unit \<Rightarrow> code_unit \<Rightarrow> code_unit \<Rightarrow> code_unit \<Rightarrow> code_unit option" where
  "hex4 a b c d =
     (case (hex_digit a, hex_digit b, hex_digit c, hex_digit d) of
        (Some h1, Some h2, Some h3, Some h4) \<Rightarrow> Some (h1 * 0x1000 + h2 * 0x100 + h3 * 0x10 + h4)
      | _ \<Rightarrow> None)"

text \<open>The single-character escapes: quote, backslash, slash, b, f, n, r, t.\<close>

definition escape :: "code_unit \<Rightarrow> code_unit option" where
  "escape c =
     (if c = 0x22 then Some 0x22
      else if c = 0x5C then Some 0x5C
      else if c = 0x2F then Some 0x2F
      else if c = 0x62 then Some 0x08
      else if c = 0x66 then Some 0x0C
      else if c = 0x6E then Some 0x0A
      else if c = 0x72 then Some 0x0D
      else if c = 0x74 then Some 0x09
      else None)"

definition cons_fst :: "'a \<Rightarrow> ('a list \<times> 'b) option \<Rightarrow> ('a list \<times> 'b) option" where
  "cons_fst x r = (case r of None \<Rightarrow> None | Some (xs, rest) \<Rightarrow> Some (x # xs, rest))"

text \<open>
  The characters of a string literal after its opening quote, up to the closing quote.
  Control characters below U+0020 are not allowed unescaped.
\<close>

fun string_body :: "js_string \<Rightarrow> (js_string \<times> js_string) option" where
  "string_body [] = None"
| "string_body (c # cs) =
     (if c = 0x22 then Some ([], cs)
      else if c = 0x5C then
        (case cs of
           [] \<Rightarrow> None
         | e # es \<Rightarrow>
             if e = 0x75 then
               (case es of
                  h1 # h2 # h3 # h4 # rest \<Rightarrow>
                    (case hex4 h1 h2 h3 h4 of
                       None \<Rightarrow> None
                     | Some u \<Rightarrow> cons_fst u (string_body rest))
                | _ \<Rightarrow> None)
             else (case escape e of None \<Rightarrow> None | Some u \<Rightarrow> cons_fst u (string_body es)))
      else if c < 0x20 then None
      else cons_fst c (string_body cs))"

text \<open>
  A number literal: an optional minus, \<^verbatim>\<open>0\<close> or digits without a leading zero, an optional
  fraction, an optional exponent. Each part returns the text it read and the rest.
\<close>

definition digits :: "js_string \<Rightarrow> (js_string \<times> js_string) option" where
  "digits s = (if takeWhile is_digit s = [] then None
               else Some (takeWhile is_digit s, dropWhile is_digit s))"

definition int_part :: "js_string \<Rightarrow> (js_string \<times> js_string) option" where
  "int_part s =
     (case s of
        [] \<Rightarrow> None
      | c # cs \<Rightarrow> if c = 0x30 then Some ([c], cs) else digits s)"

definition frac_part :: "js_string \<Rightarrow> (js_string \<times> js_string) option" where
  "frac_part s =
     (case s of
        [] \<Rightarrow> Some ([], s)
      | c # cs \<Rightarrow>
          if c = 0x2E then (case digits cs of None \<Rightarrow> None | Some (ds, r) \<Rightarrow> Some (c # ds, r))
          else Some ([], s))"

definition exp_part :: "js_string \<Rightarrow> (js_string \<times> js_string) option" where
  "exp_part s =
     (case s of
        [] \<Rightarrow> Some ([], s)
      | c # cs \<Rightarrow>
          if c = 0x65 \<or> c = 0x45 then
            (case cs of
               [] \<Rightarrow> None
             | g # gs \<Rightarrow>
                 if g = 0x2B \<or> g = 0x2D
                 then (case digits gs of None \<Rightarrow> None | Some (ds, r) \<Rightarrow> Some (c # g # ds, r))
                 else (case digits cs of None \<Rightarrow> None | Some (ds, r) \<Rightarrow> Some (c # ds, r)))
          else Some ([], s))"

definition number :: "js_string \<Rightarrow> (js_string \<times> js_string) option" where
  "number s =
     (let (sign, s1) = (case s of [] \<Rightarrow> ([], s) | c # cs \<Rightarrow> if c = 0x2D then ([c], cs) else ([], s))
      in case int_part s1 of
           None \<Rightarrow> None
         | Some (i, s2) \<Rightarrow>
             (case frac_part s2 of
                None \<Rightarrow> None
              | Some (f, s3) \<Rightarrow>
                  (case exp_part s3 of
                     None \<Rightarrow> None
                   | Some (e, s4) \<Rightarrow> Some (sign @ i @ f @ e, s4))))"

text \<open>
  The recursive descent. The first argument bounds the depth of the calls; \<open>JSON_parse\<close>
  starts it above twice the length of the text, which is enough: every call below the first
  one is made after at least one more code unit has been read, and a larger bound gives the
  same result (lemma \<open>JSON_parse_fuel\<close>).
\<close>

fun parse_value :: "nat \<Rightarrow> js_string \<Rightarrow> (json \<times> js_string) option"
  and parse_elements :: "nat \<Rightarrow> js_string \<Rightarrow> (json list \<times> js_string) option"
  and parse_members :: "nat \<Rightarrow> js_string \<Rightarrow> ((js_string \<times> json) list \<times> js_string) option"
where
  "parse_value 0 s = None"
| "parse_value (Suc n) [] = None"
| "parse_value (Suc n) (c # cs) =
     (if c = 0x5B then
        (case skip_ws cs of
           [] \<Rightarrow> None
         | d # ds \<Rightarrow>
             if d = 0x5D then Some (JArr [], ds)
             else (case parse_elements n (d # ds) of
                     None \<Rightarrow> None
                   | Some (vs, r) \<Rightarrow> Some (JArr vs, r)))
      else if c = 0x7B then
        (case skip_ws cs of
           [] \<Rightarrow> None
         | d # ds \<Rightarrow>
             if d = 0x7D then Some (JObj [], ds)
             else (case parse_members n (d # ds) of
                     None \<Rightarrow> None
                   | Some (kvs, r) \<Rightarrow> Some (JObj kvs, r)))
      else if c = 0x22 then
        (case string_body cs of None \<Rightarrow> None | Some (str, r) \<Rightarrow> Some (JStr str, r))
      else if starts_with (lit ''true'') (c # cs) then Some (JBool True, drop 4 (c # cs))
      else if starts_with (lit ''false'') (c # cs) then Some (JBool False, drop 5 (c # cs))
      else if starts_with (lit ''null'') (c # cs) then Some (JNull, drop 4 (c # cs))
      else (case number (c # cs) of None \<Rightarrow> None | Some (lexeme, r) \<Rightarrow> Some (JNum lexeme, r)))"
| "parse_elements 0 s = None"
| "parse_elements (Suc n) s =
     (case parse_value n s of
        None \<Rightarrow> None
      | Some (v, r) \<Rightarrow>
          (case skip_ws r of
             [] \<Rightarrow> None
           | d # ds \<Rightarrow>
               if d = 0x2C then cons_fst v (parse_elements n (skip_ws ds))
               else if d = 0x5D then Some ([v], ds)
               else None))"
| "parse_members 0 s = None"
| "parse_members (Suc n) s =
     (case s of
        [] \<Rightarrow> None
      | q # qs \<Rightarrow>
          if q = 0x22 then
            (case string_body qs of
               None \<Rightarrow> None
             | Some (k, r) \<Rightarrow>
                 (case skip_ws r of
                    [] \<Rightarrow> None
                  | d # ds \<Rightarrow>
                      if d = 0x3A then
                        (case parse_value n (skip_ws ds) of
                           None \<Rightarrow> None
                         | Some (v, r') \<Rightarrow>
                             (case skip_ws r' of
                                [] \<Rightarrow> None
                              | e # es \<Rightarrow>
                                  if e = 0x2C then cons_fst (k, v) (parse_members n (skip_ws es))
                                  else if e = 0x7D then Some ([(k, v)], es)
                                  else None))
                      else None))
          else None)"

text \<open>\<^verbatim>\<open>JSON.parse(text)\<close>: \<open>None\<close> stands for the SyntaxError it throws.\<close>

definition JSON_parse :: "js_string \<Rightarrow> json option" where
  "JSON_parse text =
     (case parse_value (2 * length text + 2) (skip_ws text) of
        None \<Rightarrow> None
      | Some (v, r) \<Rightarrow> if skip_ws r = [] then Some v else None)"

subsection \<open>JavaScript values, property reads and exceptions\<close>

text \<open>
  A value read from a parsed JSON document is a \<open>json\<close> or \<^verbatim>\<open>undefined\<close>, which is \<open>None\<close>.
  A property is read by name or by index.
\<close>

datatype key = Prop js_string | Index nat

datatype type_error =
    CannotRead "json option" key
  | NotAFunction "json option" key
  | CannotConvert json

text \<open>
  What a handler can throw: its own \<^verbatim>\<open>new Error(message)\<close>, the engine's TypeError, the
  SyntaxError of \<^verbatim>\<open>JSON.parse\<close> on a text, the rejection of \<^verbatim>\<open>fetch\<close> (with its message),
  the rejection of \<^verbatim>\<open>response.json()\<close> (for a URL and a body text), and the RangeError of
  \<^verbatim>\<open>JSON.stringify\<close> on a value too deeply nested for the stack.
\<close>

datatype exn =
    Error js_string
  | TypeError type_error
  | SyntaxError js_string
  | FetchError js_string
  | InvalidJson js_string js_string
  | RangeError

text \<open>
  What the JavaScript engine and the libraries decide and the repository does not: whether
  the double a number literal denotes is zero, the string conversion of a value that is not
  a string, a boolean or null (\<open>None\<close>: the conversion throws), the text \<^verbatim>\<open>JSON.stringify\<close>
  writes for the double a number literal denotes (\<open>None\<close>: the double is not finite, as for
  \<^verbatim>\<open>1e999\<close>), whether the serialisation of a deeply nested value exhausts the stack, the
  message texts of the errors they raise, and the clock.
\<close>

record runtime =
  number_is_zero :: "js_string \<Rightarrow> bool"
  ToString :: "json \<Rightarrow> js_string option"
  number_to_json :: "js_string \<Rightarrow> js_string option"
  stack_exhausted :: "json \<Rightarrow> bool"
  type_error_message :: "type_error \<Rightarrow> js_string"
  syntax_error_message :: "js_string \<Rightarrow> js_string"
  invalid_json_message :: "js_string \<Rightarrow> js_string \<Rightarrow> js_string"
  range_error_message :: js_string
  toISOString_now :: js_string

definition error_message :: "runtime \<Rightarrow> exn \<Rightarrow> js_string" where
  "error_message rt e =
     (case e of
        Error m \<Rightarrow> m
      | TypeError t \<Rightarrow> type_error_message rt t
      | SyntaxError text \<Rightarrow> syntax_error_message rt text
      | FetchError m \<Rightarrow> m
      | InvalidJson u text \<Rightarrow> invalid_json_message rt u text
      | RangeError \<Rightarrow> range_error_message rt)"

text \<open>
  The control flow of a handler body: a statement throws, returns a response
  (\<^verbatim>\<open>return res.status(..).json(..)\<close>), or goes on with a value. The body of a response
  is the JSON document \<^verbatim>\<open>res.json\<close> sends (as the value a client reads from it, a number by
  its text), the page Express sends by itself for a request no layer answers or for an
  error no layer handles, nothing (the answer of \<^verbatim>\<open>cors()\<close> to an OPTIONS request, and every
  answer to a HEAD request), or the content of a file of the \<^verbatim>\<open>public\<close> directory.
\<close>

datatype payload =
    Json json
  | Express_not_found_page
  | Express_error_page
  | No_content
  | File_content js_string

record http_response =
  status :: nat
  body :: payload

datatype 'a flow = Thrown exn | Returned http_response | Next 'a

definition and_then :: "'a flow \<Rightarrow> ('a \<Rightarrow> 'b flow) \<Rightarrow> 'b flow" where
  "and_then m f = (case m of Thrown e \<Rightarrow> Thrown e | Returned r \<Rightarrow> Returned r | Next x \<Rightarrow> f x)"

fun decimal :: "nat \<Rightarrow> js_string" where
  "decimal n = (if n < 10 then [of_nat (48 + n)] else decimal (n div 10) @ [of_nat (48 + n mod 10)])"

text \<open>The own property of an object: the last member of that name.\<close>

definition own_property :: "(js_string \<times> json) list \<Rightarrow> js_string \<Rightarrow> json option" where
  "own_property members name = map_of (rev members) name"

text \<open>
  \<^verbatim>\<open>v.name\<close> and \<^verbatim>\<open>v[i]\<close>. Reading a property of \<^verbatim>\<open>undefined\<close> or \<^verbatim>\<open>null\<close> throws a TypeError.
  An array or a string has its elements and \<^verbatim>\<open>length\<close>; a number or a boolean has none of the
  properties read here. The names the handlers read (imageData, mediaType, error, message,
  candidates, promptFeedback, blockReason, finishReason, content, parts, text, length) are
  not inherited from a prototype, except \<^verbatim>\<open>length\<close>, which is modelled.
\<close>

definition get :: "json option \<Rightarrow> key \<Rightarrow> json option flow" where
  "get v k =
     (case v of
        None \<Rightarrow> Thrown (TypeError (CannotRead v k))
      | Some JNull \<Rightarrow> Thrown (TypeError (CannotRead v k))
      | Some (JObj members) \<Rightarrow>
          Next (own_property members (case k of Prop name \<Rightarrow> name | Index i \<Rightarrow> decimal i))
      | Some (JArr xs) \<Rightarrow>
          Next (case k of
                  Index i \<Rightarrow> if i < length xs then Some (xs ! i) else None
                | Prop name \<Rightarrow> if name = lit ''length'' then Some (JNum (decimal (length xs))) else None)
      | Some (JStr s) \<Rightarrow>
          Next (case k of
                  Index i \<Rightarrow> if i < length s then Some (JStr [s ! i]) else None
                | Prop name \<Rightarrow> if name = lit ''length'' then Some (JNum (decimal (length s))) else None)
      | Some (JBool b) \<Rightarrow> Next None
      | Some (JNum n) \<Rightarrow> Next None)"

text \<open>Optional chaining \<^verbatim>\<open>v?.name\<close>, \<^verbatim>\<open>v?.[i]\<close>: \<^verbatim>\<open>undefined\<close> where \<open>v\<close> is undefined or null.\<close>

definition get_opt :: "json option \<Rightarrow> key \<Rightarrow> json option" where
  "get_opt v k = (case get v k of Next r \<Rightarrow> r | Thrown e \<Rightarrow> None | Returned r \<Rightarrow> None)"

text \<open>ToBoolean: undefined, null, false, a zero number and the empty string are falsy.\<close>

definition truthy :: "runtime \<Rightarrow> json option \<Rightarrow> bool" where
  "truthy rt v =
     (case v of
        None \<Rightarrow> False
      | Some JNull \<Rightarrow> False
      | Some (JBool b) \<Rightarrow> b
      | Some (JNum n) \<Rightarrow> \<not> number_is_zero rt n
      | Some (JStr s) \<Rightarrow> s \<noteq> []
      | Some (JArr xs) \<Rightarrow> True
      | Some (JObj members) \<Rightarrow> True)"

text \<open>The string a template literal \<^verbatim>\<open>${v}\<close> inserts.\<close>

definition to_string :: "runtime \<Rightarrow> json option \<Rightarrow> js_string flow" where
  "to_string rt v =
     (case v of
        None \<Rightarrow> Next (lit ''undefined'')
      | Some JNull \<Rightarrow> Next (lit ''null'')
      | Some (JBool b) \<Rightarrow> Next (if b then lit ''true'' else lit ''false'')
      | Some (JStr s) \<Rightarrow> Next s
      | Some j \<Rightarrow> (case ToString rt j of None \<Rightarrow> Thrown (TypeError (CannotConvert j)) | Some s \<Rightarrow> Next s))"

text \<open>Calling a string method (\<^verbatim>\<open>trim\<close>, \<^verbatim>\<open>replace\<close>) on a value: only a string has it.\<close>

definition string_receiver :: "json option \<Rightarrow> js_string \<Rightarrow> js_string flow" where
  "string_receiver v method_name =
     (case v of
        Some (JStr s) \<Rightarrow> Next s
      | None \<Rightarrow> Thrown (TypeError (CannotRead v (Prop method_name)))
      | Some JNull \<Rightarrow> Thrown (TypeError (CannotRead v (Prop method_name)))
      | Some j \<Rightarrow> Thrown (TypeError (NotAFunction v (Prop method_name))))"

subsection \<open>Environment and the inference endpoint\<close>

text \<open>\<^verbatim>\<open>process.env\<close>: a variable is a string or absent.\<close>

record env =
  GEMINI_API_KEY :: "js_string option"
  GOOGLE_API_KEY :: "js_string option"
  NODE_ENV :: "js_string option"
  PORT :: "js_string option"

text \<open>\<^verbatim>\<open>a || b\<close> and \<^verbatim>\<open>!a\<close> on environment variables: the empty string is falsy.\<close>

definition is_set :: "js_string option \<Rightarrow> bool" where
  "is_set a = (case a of None \<Rightarrow> False | Some s \<Rightarrow> s \<noteq> [])"

definition or_else :: "js_string option \<Rightarrow> js_string option \<Rightarrow> js_string option" where
  "or_else a b = (if is_set a then a else b)"

text \<open>
  One call of \<^verbatim>\<open>fetch\<close>: the URL (it carries the key) and the two fields of the request body
  that come from the client; a field whose value is \<^verbatim>\<open>undefined\<close> is left out by
  \<^verbatim>\<open>JSON.stringify\<close>. The prompt, a constant of each file, is not represented. The endpoint
  answers with a status and a body text, or the call is rejected (a transport failure).
\<close>

record fetch_request =
  url :: js_string
  mime_type :: "json option"
  inline_data :: "json option"

datatype fetch_result = Rejected js_string | Response nat js_string

type_synonym upstream = "fetch_request \<Rightarrow> fetch_result"

datatype source_file = Server_js | Part_000 | Part_001 | Part_002

definition model_name :: "source_file \<Rightarrow> js_string" where
  "model_name f =
     (case f of
        Server_js \<Rightarrow> lit ''gemini-1.5-pro''
      | Part_000 \<Rightarrow> lit ''gemini-2.0-flash''
      | Part_001 \<Rightarrow> lit ''gemini-2.0-flash-exp''
      | Part_002 \<Rightarrow> lit ''gemini-2.0-flash'')"

definition apiURL :: "source_file \<Rightarrow> js_string \<Rightarrow> js_string" where
  "apiURL f API_KEY =
     lit ''https://generativelanguage.googleapis.com/v1beta/models/'' @ model_name f @
     lit '':generateContent?key='' @ API_KEY"

text \<open>\<^verbatim>\<open>response.ok\<close> of node-fetch: the status is in the range 200-299.\<close>

definition ok :: "nat \<Rightarrow> bool" where
  "ok st \<longleftrightarrow> 200 \<le> st \<and> st < 300"

text \<open>The outcome of a request: the upstream calls made, in order, and the response sent.\<close>

record outcome =
  calls :: "fetch_request list"
  reply :: http_response

text \<open>
  \<^verbatim>\<open>JSON.stringify\<close> on a value that \<^verbatim>\<open>JSON.parse\<close> gave. The text it writes is represented by
  the value a client reads from it, \<open>as_written\<close>:

    \<^item> a number is written as the engine prints the double the literal denotes, and as
      \<^verbatim>\<open>null\<close> where that double is not finite;

    \<^item> an object is written with its own properties: one per name, at the place of the first
      member of that name and with the value of the last one; the names that are array
      indices (canonical decimal numerals up to 4294967294) come first, in ascending order,
      the other names follow in the order of the text;

    \<^item> strings, booleans, null and the order of the elements of an array are kept.

  The serialisation recurses once for every level of nesting and throws a RangeError where
  the stack is exhausted. Where that happens is the engine's (\<open>stack_exhausted\<close>: it depends
  on the size of the stack, for Node.js some thousands of levels); it does not happen for a
  value nested at most 16 levels deep. The \<^verbatim>\<open>catch\<close> of the handler turns the RangeError into
  a response 500.
\<close>

fun nesting :: "json \<Rightarrow> nat" where
  "nesting (JArr xs) = Suc (foldr max (map nesting xs) 0)"
| "nesting (JObj members) = Suc (foldr max (map (\<lambda>member. nesting (snd member)) members) 0)"
| "nesting v = 0"

definition index_value :: "js_string \<Rightarrow> int" where
  "index_value name = foldl (\<lambda>n c. 10 * n + (uint c - 48)) 0 name"

definition is_array_index :: "js_string \<Rightarrow> bool" where
  "is_array_index name \<longleftrightarrow>
     name \<noteq> [] \<and> list_all is_digit name \<and> (if hd name = 0x30 then tl name = [] else True) \<and>
     index_value name \<le> 4294967294"

definition property_names :: "(js_string \<times> json) list \<Rightarrow> js_string list" where
  "property_names members =
     (let names = rev (remdups (rev (map fst members)))
      in sort_key index_value (filter is_array_index names) @
         filter (\<lambda>name. \<not> is_array_index name) names)"

definition own_properties :: "(js_string \<times> json) list \<Rightarrow> (js_string \<times> json) list" where
  "own_properties members =
     map (\<lambda>name. (name, case own_property members name of Some v \<Rightarrow> v | None \<Rightarrow> JNull))
       (property_names members)"

fun as_written :: "runtime \<Rightarrow> json \<Rightarrow> json" where
  "as_written rt (JNum n) = (case number_to_json rt n of None \<Rightarrow> JNull | Some m \<Rightarrow> JNum m)"
| "as_written rt (JArr xs) = JArr (map (as_written rt) xs)"
| "as_written rt (JObj members) =
     JObj (own_properties (map (\<lambda>member. (fst member, as_written rt (snd member))) members))"
| "as_written rt v = v"

definition stringify_throws :: "runtime \<Rightarrow> json \<Rightarrow> bool" where
  "stringify_throws rt v \<longleftrightarrow> 16 < nesting v \<and> stack_exhausted rt v"

definition JSON_stringify :: "runtime \<Rightarrow> json \<Rightarrow> json flow" where
  "JSON_stringify rt v = (if stringify_throws rt v then Thrown RangeError else Next (as_written rt v))"

text \<open>\<^verbatim>\<open>res.json(v)\<close> on a parsed value: the status is 200, the body is \<^verbatim>\<open>JSON.stringify(v)\<close>.\<close>

definition res_json :: "runtime \<Rightarrow> json \<Rightarrow> http_response flow" where
  "res_json rt v =
     and_then (JSON_stringify rt v) (\<lambda>written. Returned \<lparr>status = 200, body = Json written\<rparr>)"

text \<open>
  \<^verbatim>\<open>res.status(st).json(b)\<close> on an object \<open>b\<close> that a handler builds itself: a few members
  with distinct names, none of them an array index, whose values are strings, a boolean or
  the number 3001. \<^verbatim>\<open>JSON.stringify\<close> writes such an object as it is.
\<close>

definition respond :: "nat \<Rightarrow> json \<Rightarrow> http_response" where
  "respond st b = \<lparr>status = st, body = Json b\<rparr>"

definition error_body :: "js_string \<Rightarrow> json" where
  "error_body message = JObj [(lit ''error'', JStr message)]"

text \<open>
  A handler body is the statements before \<^verbatim>\<open>await fetch\<close>, which end in a request, and the
  statements after it; all of them are inside one \<^verbatim>\<open>try\<close>, whose \<^verbatim>\<open>catch\<close> turns the exception
  into a response.
\<close>

definition finish :: "(exn \<Rightarrow> http_response) \<Rightarrow> http_response flow \<Rightarrow> http_response" where
  "finish catch fl = (case fl of Thrown e \<Rightarrow> catch e | Returned r \<Rightarrow> r | Next r \<Rightarrow> r)"

definition serve ::
  "(exn \<Rightarrow> http_response) \<Rightarrow> fetch_request flow \<Rightarrow>
   (fetch_request \<Rightarrow> fetch_result \<Rightarrow> http_response flow) \<Rightarrow> upstream \<Rightarrow> outcome" where
  "serve catch first_part second_part fetch =
     (case first_part of
        Thrown e \<Rightarrow> \<lparr>calls = [], reply = catch e\<rparr>
      | Returned r \<Rightarrow> \<lparr>calls = [], reply = r\<rparr>
      | Next request \<Rightarrow> \<lparr>calls = [request], reply = finish catch (second_part request (fetch request))\<rparr>)"

text \<open>
  \<^verbatim>\<open>await response.json()\<close> after \<^verbatim>\<open>await fetch(..)\<close>: the rejection of either is thrown.
\<close>

definition response_json :: "fetch_request \<Rightarrow> fetch_result \<Rightarrow> json flow" where
  "response_json request result =
     (case result of
        Rejected message \<Rightarrow> Thrown (FetchError message)
      | Response st text \<Rightarrow>
          (case JSON_parse text of
             None \<Rightarrow> Thrown (InvalidJson (url request) text)
           | Some json \<Rightarrow> Next json))"

text \<open>\<^verbatim>\<open>json.candidates[0].content.parts[0].text.trim()\<close>, from the first candidate.\<close>

definition rawText_of :: "json option \<Rightarrow> js_string flow" where
  "rawText_of candidate =
     and_then (get candidate (Prop (lit ''content''))) (\<lambda>content.
     and_then (get content (Prop (lit ''parts''))) (\<lambda>parts.
     and_then (get parts (Index 0)) (\<lambda>part.
     and_then (get part (Prop (lit ''text''))) (\<lambda>text.
     and_then (string_receiver text (lit ''trim'')) (\<lambda>s.
     Next (trim s))))))"

definition invalid_response_message :: js_string where
  "invalid_response_message =
     lit ''Respuesta inv'' @ [0xE1] @ lit ''lida del modelo. Verifica los logs para m'' @ [0xE1] @
     lit ''s detalles.''"

definition parse_error_body :: "js_string \<Rightarrow> json" where
  "parse_error_body cleaned =
     JObj [(lit ''error'', JStr (lit ''Error al parsear respuesta del modelo'')),
           (lit ''raw'', JStr cleaned)]"

text \<open>
  The checks server.js (lines 116-130) and part_002 (lines 77-91) share: the candidates
  check, the block reason check and the finish reason check. part_002 makes the block
  reason check first, server.js the candidates check.
\<close>

definition candidates_check :: "runtime \<Rightarrow> json \<Rightarrow> json option flow" where
  "candidates_check rt json =
     and_then (get (Some json) (Prop (lit ''candidates''))) (\<lambda>candidates.
     if truthy rt candidates then
       and_then (get candidates (Index 0)) (\<lambda>candidate.
       if truthy rt candidate then Next candidate
       else Thrown (Error invalid_response_message))
     else Thrown (Error invalid_response_message))"

definition blockReason_check :: "runtime \<Rightarrow> json \<Rightarrow> unit flow" where
  "blockReason_check rt json =
     and_then (get (Some json) (Prop (lit ''promptFeedback''))) (\<lambda>promptFeedback.
     if truthy rt promptFeedback then
       and_then (get promptFeedback (Prop (lit ''blockReason''))) (\<lambda>blockReason.
       if truthy rt blockReason then
         and_then (to_string rt blockReason) (\<lambda>reason.
         Thrown (Error (lit ''Contenido bloqueado por seguridad: '' @ reason)))
       else Next ())
     else Next ())"

definition finishReason_check :: "json option \<Rightarrow> unit flow" where
  "finishReason_check candidate =
     and_then (get candidate (Prop (lit ''finishReason''))) (\<lambda>finishReason.
     if finishReason = Some (JStr (lit ''SAFETY'')) then
       Thrown (Error (lit ''Contenido filtrado por: '' @ lit ''SAFETY''))
     else if finishReason = Some (JStr (lit ''RECITATION'')) then
       Thrown (Error (lit ''Contenido filtrado por: '' @ lit ''RECITATION''))
     else Next ())"

subsection \<open>\<^verbatim>\<open>src/server.js\<close> and \<^verbatim>\<open>src/unnamed/part_000\<close>\<close>

definition missing_key_message_server_js :: js_string where
  "missing_key_message_server_js =
     lit ''API key no est'' @ [0xE1] @
     lit '' configurada. Verifica las variables de entorno en Vercel.''"

definition note_server_js :: js_string where
  "note_server_js =
     lit ''Verifica que la API key est'' @ [0xE9] @
     lit '' configurada en Vercel Environment Variables''"

text \<open>Lines 156-162: the \<^verbatim>\<open>catch\<close> answers 500 with the message and a fixed note.\<close>

definition catch_server_js :: "runtime \<Rightarrow> exn \<Rightarrow> http_response" where
  "catch_server_js rt e =
     respond 500 (JObj [(lit ''error'', JStr (error_message rt e)), (lit ''note'', JStr note_server_js)])"

text \<open>Lines 28-50: destructuring of the body, the key, the URL.\<close>

definition before_fetch_server_js :: "source_file \<Rightarrow> env \<Rightarrow> json \<Rightarrow> fetch_request flow" where
  "before_fetch_server_js f e req_body =
     and_then (get (Some req_body) (Prop (lit ''imageData''))) (\<lambda>imageData.
     and_then (get (Some req_body) (Prop (lit ''mediaType''))) (\<lambda>mediaType.
     (case or_else (GEMINI_API_KEY e) (GOOGLE_API_KEY e) of
        None \<Rightarrow> Thrown (Error missing_key_message_server_js)
      | Some API_KEY \<Rightarrow>
          if API_KEY = [] then Thrown (Error missing_key_message_server_js)
          else Next \<lparr>url = apiURL f API_KEY, mime_type = mediaType, inline_data = imageData\<rparr>)))"

text \<open>
  Lines 104-154. The output of \<^verbatim>\<open>console.log\<close> is not represented, the evaluation of its
  arguments is: \<^verbatim>\<open>JSON.stringify(json, null, 2)\<close> (line 108) throws where the reply is too
  deeply nested, and \<^verbatim>\<open>parsed.length\<close> (line 153) throws where \<open>parsed\<close> is null.
\<close>

definition after_fetch_server_js ::
  "runtime \<Rightarrow> fetch_request \<Rightarrow> fetch_result \<Rightarrow> http_response flow" where
  "after_fetch_server_js rt request result =
     and_then (response_json request result) (\<lambda>json.
     and_then (JSON_stringify rt json) (\<lambda>_.
     and_then (get (Some json) (Prop (lit ''error''))) (\<lambda>error.
     if truthy rt error then
       and_then (get error (Prop (lit ''message''))) (\<lambda>message.
       and_then (if truthy rt message then to_string rt message else Next (lit ''Unknown error''))
         (\<lambda>shown. Thrown (Error (lit ''API Error: '' @ shown))))
     else
       and_then (candidates_check rt json) (\<lambda>candidate.
       and_then (blockReason_check rt json) (\<lambda>_.
       and_then (finishReason_check candidate) (\<lambda>_.
       and_then (rawText_of candidate) (\<lambda>rawText.
       (case JSON_parse (cleanJson rawText) of
          None \<Rightarrow> Returned (respond 400 (parse_error_body (cleanJson rawText)))
        | Some parsed \<Rightarrow>
            and_then (get (Some parsed) (Prop (lit ''length''))) (\<lambda>_.
            res_json rt parsed)))))))))"

definition handler_server_js :: "source_file \<Rightarrow> runtime \<Rightarrow> env \<Rightarrow> upstream \<Rightarrow> json \<Rightarrow> outcome" where
  "handler_server_js f rt e fetch req_body =
     serve (catch_server_js rt) (before_fetch_server_js f e req_body) (after_fetch_server_js rt) fetch"

subsection \<open>\<^verbatim>\<open>src/unnamed/part_001\<close>\<close>

text \<open>Lines 77-80: the \<^verbatim>\<open>catch\<close> answers 500 with the message.\<close>

definition catch_plain :: "runtime \<Rightarrow> exn \<Rightarrow> http_response" where
  "catch_plain rt e = respond 500 (error_body (error_message rt e))"

text \<open>Lines 24-37: the presence check of imageData, then the key.\<close>

definition before_fetch_part_001 :: "runtime \<Rightarrow> env \<Rightarrow> json \<Rightarrow> fetch_request flow" where
  "before_fetch_part_001 rt e req_body =
     and_then (get (Some req_body) (Prop (lit ''imageData''))) (\<lambda>imageData.
     and_then (get (Some req_body) (Prop (lit ''mediaType''))) (\<lambda>mediaType.
     if truthy rt imageData then
       (case GEMINI_API_KEY e of
          None \<Rightarrow> Returned (respond 500 (error_body (lit ''Server configuration error: Missing API Key'')))
        | Some API_KEY \<Rightarrow>
            if API_KEY = [] then
              Returned (respond 500 (error_body (lit ''Server configuration error: Missing API Key'')))
            else
              Next \<lparr>url = apiURL Part_001 API_KEY,
                    mime_type = (if truthy rt mediaType then mediaType else Some (JStr (lit ''image/png''))),
                    inline_data = imageData\<rparr>)
     else Returned (respond 400 (error_body (lit ''No image data provided'')))))"

text \<open>
  Line 63: \<^verbatim>\<open>data.candidates?.[0]?.content?.parts?.[0]?.text\<close>; the first read is not
  optional.
\<close>

definition generatedText_of :: "json \<Rightarrow> json option flow" where
  "generatedText_of data =
     and_then (get (Some data) (Prop (lit ''candidates''))) (\<lambda>candidates.
     Next (get_opt (get_opt (get_opt (get_opt (get_opt candidates (Index 0))
             (Prop (lit ''content''))) (Prop (lit ''parts''))) (Index 0)) (Prop (lit ''text''))))"

text \<open>Lines 57-75.\<close>

definition after_fetch_part_001 ::
  "runtime \<Rightarrow> fetch_request \<Rightarrow> fetch_result \<Rightarrow> http_response flow" where
  "after_fetch_part_001 rt request result =
     (case result of
        Rejected message \<Rightarrow> Thrown (FetchError message)
      | Response st errorText \<Rightarrow>
          if ok st then
            and_then (response_json request result) (\<lambda>data.
            and_then (generatedText_of data) (\<lambda>generatedText.
            if truthy rt generatedText then
              and_then (string_receiver generatedText (lit ''replace'')) (\<lambda>text.
              (case JSON_parse (cleanJson text) of
                 None \<Rightarrow> Thrown (SyntaxError (cleanJson text))
               | Some patients \<Rightarrow> res_json rt patients))
            else Thrown (Error (lit ''No data returned from AI''))))
          else
            Thrown (Error (lit ''Gemini API Error: '' @ decimal st @ lit '' - '' @ errorText)))"

definition handler_part_001 :: "runtime \<Rightarrow> env \<Rightarrow> upstream \<Rightarrow> json \<Rightarrow> outcome" where
  "handler_part_001 rt e fetch req_body =
     serve (catch_plain rt) (before_fetch_part_001 rt e req_body) (after_fetch_part_001 rt) fetch"

subsection \<open>\<^verbatim>\<open>src/unnamed/part_002\<close>\<close>

definition missing_key_message_part_002 :: js_string where
  "missing_key_message_part_002 =
     lit ''GEMINI_API_KEY no est'' @ [0xE1] @ lit '' configurada en .env''"

text \<open>Lines 26-34.\<close>

definition before_fetch_part_002 :: "env \<Rightarrow> json \<Rightarrow> fetch_request flow" where
  "before_fetch_part_002 e req_body =
     and_then (get (Some req_body) (Prop (lit ''imageData''))) (\<lambda>imageData.
     and_then (get (Some req_body) (Prop (lit ''mediaType''))) (\<lambda>mediaType.
     (case GEMINI_API_KEY e of
        None \<Rightarrow> Thrown (Error missing_key_message_part_002)
      | Some API_KEY \<Rightarrow>
          if API_KEY = [] then Thrown (Error missing_key_message_part_002)
          else Next \<lparr>url = apiURL Part_002 API_KEY, mime_type = mediaType, inline_data = imageData\<rparr>)))"

text \<open>Lines 72-114; line 75 is the log of \<^verbatim>\<open>JSON.stringify(json, null, 2)\<close>.\<close>

definition after_fetch_part_002 ::
  "runtime \<Rightarrow> fetch_request \<Rightarrow> fetch_result \<Rightarrow> http_response flow" where
  "after_fetch_part_002 rt request result =
     and_then (response_json request result) (\<lambda>json.
     and_then (JSON_stringify rt json) (\<lambda>_.
     and_then (blockReason_check rt json) (\<lambda>_.
     and_then (candidates_check rt json) (\<lambda>candidate.
     and_then (finishReason_check candidate) (\<lambda>_.
     and_then (rawText_of candidate) (\<lambda>rawText.
     (case JSON_parse (cleanJson rawText) of
        None \<Rightarrow> Returned (respond 400 (parse_error_body (cleanJson rawText)))
      | Some parsed \<Rightarrow> res_json rt parsed)))))))"

definition handler_part_002 :: "runtime \<Rightarrow> env \<Rightarrow> upstream \<Rightarrow> json \<Rightarrow> outcome" where
  "handler_part_002 rt e fetch req_body =
     serve (catch_plain rt) (before_fetch_part_002 e req_body) (after_fetch_part_002 rt) fetch"

subsection \<open>The application\<close>

text \<open>The handler of \<^verbatim>\<open>POST /api/process-image\<close> in each file.\<close>

definition process_image :: "source_file \<Rightarrow> runtime \<Rightarrow> env \<Rightarrow> upstream \<Rightarrow> json \<Rightarrow> outcome" where
  "process_image f rt e fetch req_body =
     (case f of
        Server_js \<Rightarrow> handler_server_js Server_js rt e fetch req_body
      | Part_000 \<Rightarrow> handler_server_js Part_000 rt e fetch req_body
      | Part_001 \<Rightarrow> handler_part_001 rt e fetch req_body
      | Part_002 \<Rightarrow> handler_part_002 rt e fetch req_body)"


text \<open>
  A request: its method, its path, and what \<^verbatim>\<open>express.json\<close> makes of its body: the value
  it leaves in \<^verbatim>\<open>req.body\<close> (the empty object for a request without a JSON body), or the
  status of the error it raises for a body it refuses (400 for a malformed one, 413 for one
  over the limit, 415 for an unsupported encoding).
\<close>

datatype http_method = GET | HEAD | POST | PUT | DELETE | PATCH | OPTIONS












text \<open>
  The response each file sends where it finds no key: thrown and caught in server.js,
  part_000 and part_002, returned directly in part_001. The messages are literals of the
  source.
\<close>

definition missing_key_reply :: "source_file \<Rightarrow> http_response" where
  "missing_key_reply f =
     (case f of
        Server_js \<Rightarrow>
          \<lparr>status = 500,
           body = Json (JObj [(lit ''error'', JStr missing_key_message_server_js),
                              (lit ''note'', JStr note_server_js)])\<rparr>
      | Part_000 \<Rightarrow>
          \<lparr>status = 500,
           body = Json (JObj [(lit ''error'', JStr missing_key_message_server_js),
                              (lit ''note'', JStr note_server_js)])\<rparr>
      | Part_001 \<Rightarrow>
          \<lparr>status = 500,
           body = Json (JObj [(lit ''error'', JStr (lit ''Server configuration error: Missing API Key''))])\<rparr>
      | Part_002 \<Rightarrow>
          \<lparr>status = 500,
           body = Json (JObj [(lit ''error'', JStr missing_key_message_part_002)])\<rparr>)"

subsection \<open>Notions used in the statements and proofs\<close>

text \<open>
  The premise of the success path: \<open>j\<close> is a reply of the inference endpoint that carries no
  error, no block reason, a first candidate whose finish reason is neither SAFETY nor
  RECITATION, and the generated text \<open>t\<close> in the first part of that candidate.
\<close>

definition first_candidate :: "json \<Rightarrow> json option" where
  "first_candidate j = get_opt (get_opt (Some j) (Prop (lit ''candidates''))) (Index 0)"

definition successful_reply :: "runtime \<Rightarrow> json \<Rightarrow> js_string \<Rightarrow> bool" where
  "successful_reply rt j t \<longleftrightarrow>
     j \<noteq> JNull \<and>
     \<not> truthy rt (get_opt (Some j) (Prop (lit ''error''))) \<and>
     \<not> truthy rt (get_opt (get_opt (Some j) (Prop (lit ''promptFeedback''))) (Prop (lit ''blockReason''))) \<and>
     truthy rt (get_opt (Some j) (Prop (lit ''candidates''))) \<and>
     truthy rt (first_candidate j) \<and>
     get_opt (first_candidate j) (Prop (lit ''finishReason'')) \<noteq> Some (JStr (lit ''SAFETY'')) \<and>
     get_opt (first_candidate j) (Prop (lit ''finishReason'')) \<noteq> Some (JStr (lit ''RECITATION'')) \<and>
     get_opt (get_opt (get_opt (get_opt (first_candidate j) (Prop (lit ''content'')))
       (Prop (lit ''parts''))) (Index 0)) (Prop (lit ''text'')) = Some (JStr t)"

text \<open>
  The values \<^verbatim>\<open>JSON.stringify\<close> writes back as they are: every number is a literal the
  engine prints as it is, and the names of every object are distinct and no array indices.
\<close>

fun unchanged :: "runtime \<Rightarrow> json \<Rightarrow> bool" where
  "unchanged rt (JNum n) \<longleftrightarrow> number_to_json rt n = Some n"
| "unchanged rt (JArr xs) \<longleftrightarrow> list_all (unchanged rt) xs"
| "unchanged rt (JObj members) \<longleftrightarrow>
     distinct (map fst members) \<and>
     list_all (\<lambda>member. \<not> is_array_index (fst member) \<and> unchanged rt (snd member)) members"
| "unchanged rt v \<longleftrightarrow> True"

text \<open>
  \<open>well_read s r\<close>: reading from \<open>s\<close> stopped at \<open>r\<close> after at least one code unit, the last
  of which is not a backtick. Every successful call of the parser reads its input so.
\<close>

definition well_read :: "js_string \<Rightarrow> js_string \<Rightarrow> bool" where
  "well_read s r \<longleftrightarrow> (\<exists>c. s = c @ r \<and> c \<noteq> [] \<and> last c \<noteq> 0x60)"

subsection \<open>Example inputs\<close>

text \<open>
  Concrete inputs at which the theorems below are instantiated: a runtime (its engine
  prints the literal \<^verbatim>\<open>40\<close> as it is and has room for every value on its stack), an
  environment with the key, without any key and with GOOGLE_API_KEY only, a request body, the
  body of a reply of the inference endpoint whose first candidate has the given text (a text
  of printable characters and line feeds, written as a JSON string literal), the record of
  the end-to-end scenario of the specification, and an Express configuration with an empty
  \<^verbatim>\<open>public\<close> directory whose paths match by equality.
\<close>

definition example_runtime :: runtime where
  "example_runtime =
     \<lparr>number_is_zero = (\<lambda>n. n = lit ''0''),
      ToString = (\<lambda>j. None),
      number_to_json = (\<lambda>n. if n = lit ''40'' then Some (lit ''40'') else None),
      stack_exhausted = (\<lambda>v. False),
      type_error_message = (\<lambda>t. lit ''TypeError''),
      syntax_error_message = (\<lambda>t. lit ''Unexpected token''),
      invalid_json_message = (\<lambda>u t. lit ''invalid json response body''),
      range_error_message = lit ''Maximum call stack size exceeded'',
      toISOString_now = lit ''2025-01-01T00:00:00.000Z''\<rparr>"

definition example_env :: env where
  "example_env =
     \<lparr>GEMINI_API_KEY = Some (lit ''k3y''), GOOGLE_API_KEY = None, NODE_ENV = None, PORT = None\<rparr>"

definition no_key_env :: env where
  "no_key_env = \<lparr>GEMINI_API_KEY = None, GOOGLE_API_KEY = None, NODE_ENV = None, PORT = None\<rparr>"

definition google_key_env :: env where
  "google_key_env =
     \<lparr>GEMINI_API_KEY = None, GOOGLE_API_KEY = Some (lit ''g00gle''), NODE_ENV = None, PORT = None\<rparr>"

definition example_body :: json where
  "example_body =
     JObj [(lit ''imageData'', JStr (lit ''aGk='')), (lit ''mediaType'', JStr (lit ''image/png''))]"

definition json_string_literal :: "js_string \<Rightarrow> js_string" where
  "json_string_literal s =
     [0x22] @
     concat (map (\<lambda>c. if c = 0x22 then [0x5C, 0x22]
                        else if c = 0x5C then [0x5C, 0x5C]
                        else if c = 0x0A then [0x5C, 0x6E]
                        else [c]) s) @
     [0x22]"

definition reply_with_text :: "js_string \<Rightarrow> js_string" where
  "reply_with_text t =
     lit ''{\"candidates\":[{\"content\":{\"parts\":[{\"text\":'' @ json_string_literal t @ lit ''}]}}]}''"

definition ana_lopez :: js_string where
  "ana_lopez =
     lit ''[{\"FECHA\":\"2025/01/01\",\"HORA\":\"09:00\",\"NOMBRE\":\"ANA LOPEZ\",\"IDENTIDAD\":\"12345\",\"EDAD\":\"40\"}]''"


section \<open>Properties\<close>

subsection \<open>Fence stripping is idempotent\<close>

lemma starts_with_append: "starts_with p s \<longleftrightarrow> (\<exists>r. s = p @ r)"
  by (induction p s rule: starts_with.induct) auto

lemma occurs_iff: "occurs p s \<longleftrightarrow> (\<exists>a c. s = a @ p @ c)"
proof (induction s)
  case Nil
  then show ?case by auto
next
  case (Cons x xs)
  show ?case
  proof
    assume "occurs p (x # xs)"
    then consider "starts_with p (x # xs)" | "occurs p xs" by auto
    then show "\<exists>a c. x # xs = a @ p @ c"
    proof cases
      case 1
      then obtain r where "x # xs = p @ r" by (auto simp: starts_with_append)
      then have "x # xs = [] @ p @ r" by simp
      then show ?thesis by blast
    next
      case 2
      then obtain a c where "xs = a @ p @ c" using Cons.IH by auto
      then have "x # xs = (x # a) @ p @ c" by simp
      then show ?thesis by blast
    qed
  next
    assume "\<exists>a c. x # xs = a @ p @ c"
    then obtain a c where ac: "x # xs = a @ p @ c" by auto
    show "occurs p (x # xs)"
    proof (cases a)
      case Nil
      then have "starts_with p (x # xs)" using ac unfolding starts_with_append by auto
      then show ?thesis by simp
    next
      case (Cons y ys)
      then have "xs = ys @ p @ c" using ac by simp
      then show ?thesis using Cons.IH by auto
    qed
  qed
qed

lemma remove_all_absent: "\<not> occurs p s \<Longrightarrow> remove_all p s = s"
  by (induction s) auto

lemma fence_head: "starts_with [b] (remove_all [b, b, b] s) \<Longrightarrow> starts_with [b] s"
  by (cases s) (auto split: if_splits)

lemma remove_all_skip:
  "\<not> starts_with p (x # xs) \<Longrightarrow> remove_all p (x # xs) = x # remove_all p xs"
  by simp

lemma remove_all_hit:
  "p \<noteq> [] \<Longrightarrow> starts_with p (x # xs) \<Longrightarrow>
   remove_all p (x # xs) = remove_all p (drop (length p) (x # xs))"
  by simp

lemma fence_head2:
  assumes "starts_with [b, b] (remove_all [b, b, b] s)"
  shows "starts_with [b, b] s"
proof (cases s)
  case Nil
  then show ?thesis using assms by simp
next
  case (Cons x xs)
  show ?thesis
  proof (cases "starts_with [b, b, b] (x # xs)")
    case True
    then show ?thesis using Cons by (cases xs) auto
  next
    case False
    then have r: "remove_all [b, b, b] s = x # remove_all [b, b, b] xs"
      using Cons by auto
    from assms r have "x = b" and "starts_with [b] (remove_all [b, b, b] xs)" by auto
    then show ?thesis using fence_head [of b xs] Cons by (cases xs) auto
  qed
qed

lemma remove_all_fence_free: "\<not> occurs [b, b, b] (remove_all [b, b, b] s)"
proof (induction s rule: length_induct)
  case (1 s)
  show ?case
  proof (cases s)
    case Nil
    then show ?thesis by simp
  next
    case (Cons x xs)
    show ?thesis
    proof (cases "starts_with [b, b, b] (x # xs)")
      case True
      then have "remove_all [b, b, b] (x # xs) =
          remove_all [b, b, b] (drop (length [b, b, b]) (x # xs))"
        by (intro remove_all_hit) auto
      moreover have "length (drop (length [b, b, b]) (x # xs)) < length s" using Cons by simp
      ultimately show ?thesis using 1 Cons by metis
    next
      case False
      then have r: "remove_all [b, b, b] s = x # remove_all [b, b, b] xs"
        using Cons by auto
      have "\<not> starts_with [b, b, b] (x # remove_all [b, b, b] xs)"
      proof
        assume "starts_with [b, b, b] (x # remove_all [b, b, b] xs)"
        then have "x = b" and "starts_with [b, b] (remove_all [b, b, b] xs)" by auto
        then have "starts_with [b, b, b] (x # xs)" using fence_head2 [of b xs] by auto
        then show False using False by auto
      qed
      moreover have "\<not> occurs [b, b, b] (remove_all [b, b, b] xs)"
        using 1 Cons by simp
      ultimately show ?thesis using r by simp
    qed
  qed
qed

lemma occurs_mono_prefix: "occurs p q \<Longrightarrow> occurs q s \<Longrightarrow> occurs p s"
proof -
  assume "occurs p q" "occurs q s"
  then obtain a c a' c' where "q = a @ p @ c" "s = a' @ q @ c'" by (auto simp: occurs_iff)
  then have "s = (a' @ a) @ p @ (c @ c')" by simp
  then show ?thesis unfolding occurs_iff by blast
qed

lemma occurs_dropWhile: "occurs p (dropWhile P s) \<Longrightarrow> occurs p s"
proof -
  assume "occurs p (dropWhile P s)"
  then obtain a c where "dropWhile P s = a @ p @ c" by (auto simp: occurs_iff)
  then have "s = (takeWhile P s @ a) @ p @ c"
    by (metis append.assoc takeWhile_dropWhile_id)
  then show ?thesis unfolding occurs_iff by blast
qed

lemma occurs_rev: "occurs p (rev s) \<longleftrightarrow> occurs (rev p) s"
proof -
  have "(\<exists>a c. rev s = a @ p @ c) \<longleftrightarrow> (\<exists>a c. s = a @ rev p @ c)"
  proof
    assume "\<exists>a c. rev s = a @ p @ c"
    then obtain a c where "rev s = a @ p @ c" by auto
    then have "s = rev c @ rev p @ rev a" by (metis append.assoc rev_append rev_rev_ident)
    then show "\<exists>a c. s = a @ rev p @ c" by blast
  next
    assume "\<exists>a c. s = a @ rev p @ c"
    then obtain a c where "s = a @ rev p @ c" by auto
    then have "rev s = rev c @ p @ rev a" by simp
    then show "\<exists>a c. rev s = a @ p @ c" by blast
  qed
  then show ?thesis by (simp add: occurs_iff)
qed

lemma occurs_trim: "occurs p (trim s) \<Longrightarrow> occurs p s"
proof -
  assume "occurs p (trim s)"
  then have "occurs (rev p) (dropWhile is_white_space (rev (dropWhile is_white_space s)))"
    by (simp add: trim_def occurs_rev)
  then have "occurs (rev p) (rev (dropWhile is_white_space s))" by (rule occurs_dropWhile)
  then have "occurs p (dropWhile is_white_space s)" by (simp add: occurs_rev)
  then show ?thesis by (rule occurs_dropWhile)
qed

lemma dropWhile_rev_dropWhile:
  "dropWhile P (rev (dropWhile P (rev (dropWhile P s)))) = rev (dropWhile P (rev (dropWhile P s)))"
proof (cases "dropWhile P s")
  case Nil
  show ?thesis unfolding Nil by simp
next
  case (Cons y ys)
  then have ny: "\<not> P y" by (metis hd_dropWhile list.sel(1) list.distinct(1))
  have "dropWhile P (rev ys @ [y]) = dropWhile P (rev ys) @ [y]"
    using ny by (simp add: dropWhile_append)
  then have "rev (dropWhile P (rev (y # ys))) = y # rev (dropWhile P (rev ys))" by simp
  then show ?thesis unfolding Cons using ny by simp
qed

lemma trim_idem: "trim (trim s) = trim s"
  by (simp add: trim_def dropWhile_rev_dropWhile)

lemma cleanJson_fence_free: "\<not> occurs fence (cleanJson s)"
proof
  assume "occurs fence (cleanJson s)"
  then have "occurs fence (remove_all fence (remove_all fence_json s))"
    unfolding cleanJson_def by (rule occurs_trim)
  then show False using remove_all_fence_free [of "0x60" "remove_all fence_json s"]
    by (simp add: fence_def lit_def)
qed

lemma fence_in_fence_json: "occurs fence fence_json"
  by (simp add: fence_def fence_json_def lit_def)

text \<open>
  Claim C2. The fence stripping of the handlers (delete every \<^verbatim>\<open>```json\<close>, then every
  \<^verbatim>\<open>```\<close>, then trim) is idempotent: on every string, stripping twice gives what stripping
  once gives.
\<close>

theorem cleanJson_idempotent: "cleanJson (cleanJson s) = cleanJson s"
proof -
  have nf: "\<not> occurs fence (cleanJson s)" by (rule cleanJson_fence_free)
  then have "\<not> occurs fence_json (cleanJson s)"
    using occurs_mono_prefix [OF fence_in_fence_json] by blast
  then have "remove_all fence_json (cleanJson s) = cleanJson s" by (rule remove_all_absent)
  moreover have "remove_all fence (cleanJson s) = cleanJson s" using nf by (rule remove_all_absent)
  moreover have "trim (cleanJson s) = cleanJson s" by (simp add: cleanJson_def trim_idem)
  ultimately show ?thesis by (simp add: cleanJson_def [of "cleanJson s"])
qed

subsection \<open>Fence stripping of a wrapped text\<close>

lemma remove_all_skip_block:
  assumes "\<And>u v. a = u @ v \<Longrightarrow> v \<noteq> [] \<Longrightarrow> \<not> starts_with p (v @ rest)"
  shows "remove_all p (a @ rest) = a @ remove_all p rest"
  using assms
proof (induction a)
  case Nil
  then show ?case by simp
next
  case (Cons x xs)
  have "\<not> starts_with p ((x # xs) @ rest)"
    using Cons.prems [of "[]" "x # xs"] by simp
  then have "remove_all p ((x # xs) @ rest) = x # remove_all p (xs @ rest)" by simp
  moreover have "remove_all p (xs @ rest) = xs @ remove_all p rest"
  proof (rule Cons.IH)
    fix u v
    assume "xs = u @ v" "v \<noteq> []"
    then show "\<not> starts_with p (v @ rest)" using Cons.prems [of "x # u" v] by simp
  qed
  ultimately show ?case by simp
qed

lemma remove_all_skip_white:
  assumes "\<forall>c\<in>set w. is_white_space c" and "\<not> is_white_space b"
  shows "remove_all (b # ps) (w @ rest) = w @ remove_all (b # ps) rest"
proof (rule remove_all_skip_block)
  fix u v
  assume "w = u @ v" "v \<noteq> []"
  then obtain y ys where "v = y # ys" and "is_white_space y"
    using assms(1) by (cases v) auto
  then show "\<not> starts_with (b # ps) (v @ rest)" using assms(2) by auto
qed

lemma starts_with_trans: "starts_with p q \<Longrightarrow> starts_with q s \<Longrightarrow> starts_with p s"
  by (auto simp: starts_with_append)

lemma occurs_suffix: "occurs p v \<Longrightarrow> occurs p (u @ v)"
proof -
  assume "occurs p v"
  then obtain a c where "v = a @ p @ c" by (auto simp: occurs_iff)
  then have "u @ v = (u @ a) @ p @ c" by simp
  then show ?thesis unfolding occurs_iff by blast
qed

lemma starts_with_occurs: "starts_with p s \<Longrightarrow> occurs p s"
  by (cases s) (auto simp: starts_with_append)

lemma remove_all_skip_core:
  assumes "\<not> occurs [b, b, b] core" and "core \<noteq> []" and "last core \<noteq> b"
    and "starts_with [b, b, b] p"
  shows "remove_all p (core @ rest) = core @ remove_all p rest"
proof (rule remove_all_skip_block)
  fix u v
  assume uv: "core = u @ v" and v: "v \<noteq> []"
  show "\<not> starts_with p (v @ rest)"
  proof
    assume "starts_with p (v @ rest)"
    then have s: "starts_with [b, b, b] (v @ rest)" using assms(4) by (rule starts_with_trans [rotated])
    have l: "last v \<noteq> b" using uv v assms(3) by simp
    have n: "\<not> starts_with [b, b, b] v"
      using assms(1) uv occurs_suffix [of "[b, b, b]" v u] starts_with_occurs [of "[b, b, b]" v] by blast
    show False
    proof (cases v)
      case Nil
      then show ?thesis using v by simp
    next
      case c1: (Cons x1 v1)
      show ?thesis
      proof (cases v1)
        case Nil
        then show ?thesis using s l c1 by auto
      next
        case c2: (Cons x2 v2)
        show ?thesis
        proof (cases v2)
          case Nil
          then show ?thesis using s l c1 c2 by auto
        next
          case (Cons x3 v3)
          then show ?thesis using s n c1 c2 by auto
        qed
      qed
    qed
  qed
qed

lemma remove_all_hit_append: "p \<noteq> [] \<Longrightarrow> remove_all p (p @ rest) = remove_all p rest"
proof -
  assume p: "p \<noteq> []"
  then obtain x xs where x: "p @ rest = x # xs" by (cases p) auto
  have "starts_with p (x # xs)" using x by (metis starts_with_append)
  then have "remove_all p (x # xs) = remove_all p (drop (length p) (x # xs))"
    by (rule remove_all_hit [OF p])
  then show ?thesis using x by (metis append_eq_conv_conj)
qed

lemma fence_json_after_fence:
  assumes "y = [] \<or> (hd y \<noteq> 0x6A \<and> hd y \<noteq> 0x60)"
  shows "remove_all fence_json (fence @ y) = fence @ remove_all fence_json y"
proof (rule remove_all_skip_block)
  fix u v
  assume "fence = u @ v" "v \<noteq> []"
  then have "v = lit ''```'' \<or> v = lit ''``'' \<or> v = lit ''`''"
    by (auto simp: fence_def lit_def append_eq_Cons_conv Cons_eq_append_conv)
  then show "\<not> starts_with fence_json (v @ y)"
    using assms by (cases y) (auto simp: fence_json_def lit_def)
qed

lemma trim_white_append:
  assumes "\<forall>c\<in>set a. is_white_space c" and "\<forall>c\<in>set c. is_white_space c"
  shows "trim (a @ x @ c) = trim x"
proof -
  have 1: "dropWhile is_white_space (a @ x @ c) = dropWhile is_white_space (x @ c)"
    using assms(1) by (simp add: dropWhile_append)
  show ?thesis
  proof (cases "\<forall>y\<in>set x. is_white_space y")
    case True
    then have e1: "dropWhile is_white_space (x @ c) = []"
      using assms(2) by auto
    have e2: "dropWhile is_white_space x = []"
      using True by auto
    show ?thesis unfolding trim_def 1 e1 e2 by simp
  next
    case False
    then have 2: "dropWhile is_white_space (x @ c) = dropWhile is_white_space x @ c"
      by (auto simp: dropWhile_append)
    have "dropWhile is_white_space (rev c @ rev (dropWhile is_white_space x)) =
          dropWhile is_white_space (rev (dropWhile is_white_space x))"
      using assms(2) by (simp add: dropWhile_append)
    then show ?thesis unfolding trim_def 1 2 by simp
  qed
qed

lemma trim_id:
  assumes "core \<noteq> []" and "\<not> is_white_space (hd core)" and "\<not> is_white_space (last core)"
  shows "trim core = core"
proof -
  have 1: "dropWhile is_white_space core = core"
    using assms(1,2) by (cases core) auto
  have "rev core \<noteq> []" and "\<not> is_white_space (hd (rev core))"
    using assms(1,3) by (simp_all add: hd_rev)
  then have "dropWhile is_white_space (rev core) = rev core"
    by (cases "rev core") auto
  then show ?thesis by (simp add: trim_def 1)
qed

lemma fence_unfold: "fence = [0x60, 0x60, 0x60]"
  by (simp add: fence_def lit_def)

lemma fence_json_unfold: "fence_json = [0x60, 0x60, 0x60, 0x6A, 0x73, 0x6F, 0x6E]"
  by (simp add: fence_json_def lit_def)

lemma white_not_fence: "is_white_space c \<Longrightarrow> c \<noteq> 0x60 \<and> c \<noteq> 0x6A"
  by (auto simp: is_white_space_def)

lemma cleanJson_wrapped:
  assumes w0: "\<forall>c\<in>set w0. is_white_space c" and w1: "\<forall>c\<in>set w1. is_white_space c"
    and w2: "\<forall>c\<in>set w2. is_white_space c" and w3: "\<forall>c\<in>set w3. is_white_space c"
    and op: "opening = [] \<or> opening = fence \<or> opening = fence_json"
    and cl: "closing = [] \<or> closing = fence"
    and ne: "core \<noteq> []" and nf: "\<not> occurs fence core"
    and h: "hd core \<noteq> 0x6A" "hd core \<noteq> 0x60" "\<not> is_white_space (hd core)"
    and l: "last core \<noteq> 0x60" "\<not> is_white_space (last core)"
  shows "cleanJson (w0 @ opening @ w1 @ core @ w2 @ closing @ w3) = core"
proof -
  have nb: "\<not> is_white_space (0x60 :: code_unit)" by (simp add: is_white_space_def)
  have nf': "\<not> occurs [0x60, 0x60, 0x60] core" using nf by (simp add: fence_unfold)
  have skipw: "remove_all p (w @ rest) = w @ remove_all p rest"
    if "\<forall>c\<in>set w. is_white_space c" "p = fence \<or> p = fence_json" for p w rest
    using that remove_all_skip_white [OF that(1) nb] by (auto simp: fence_unfold fence_json_unfold)
  have skipc: "remove_all p (core @ rest) = core @ remove_all p rest"
    if "p = fence \<or> p = fence_json" for p rest
    using that remove_all_skip_core [OF nf' ne l(1)] by (auto simp: fence_unfold fence_json_unfold)
  have a3: "remove_all fence_json w3 = w3"
    using skipw [OF w3, of fence_json "[]"] by simp
  have a4: "remove_all fence_json (closing @ w3) = closing @ w3"
  proof (cases "closing = []")
    case True
    then show ?thesis using a3 by simp
  next
    case False
    then have c: "closing = fence" using cl by simp
    have "w3 = [] \<or> (hd w3 \<noteq> 0x6A \<and> hd w3 \<noteq> 0x60)"
      using w3 white_not_fence by (cases w3) auto
    then show ?thesis using fence_json_after_fence [of w3] a3 c by simp
  qed
  let ?Y = "w1 @ core @ w2 @ closing @ w3"
  have a5: "remove_all fence_json ?Y = ?Y"
    using skipw [OF w1, of fence_json] skipc [of fence_json] skipw [OF w2, of fence_json] a4 by simp
  have hY: "hd ?Y \<noteq> 0x6A \<and> hd ?Y \<noteq> 0x60"
    using w1 h ne white_not_fence by (cases w1) auto
  define opening' where "opening' = (if opening = fence then fence else [])"
  have a6: "remove_all fence_json (opening @ ?Y) = opening' @ ?Y"
  proof -
    consider "opening = []" | "opening = fence" | "opening = fence_json" using op by blast
    then show ?thesis
    proof cases
      case 1
      then show ?thesis using a5 by (simp add: opening'_def fence_unfold)
    next
      case 2
      then show ?thesis using fence_json_after_fence [of ?Y] hY a5 by (simp add: opening'_def)
    next
      case 3
      then have "remove_all fence_json (opening @ ?Y) = remove_all fence_json ?Y"
        using remove_all_hit_append [of fence_json ?Y] by (simp add: fence_json_unfold)
      then show ?thesis using a5 3 by (simp add: opening'_def fence_unfold fence_json_unfold)
    qed
  qed
  have a7: "remove_all fence_json (w0 @ opening @ ?Y) = w0 @ opening' @ ?Y"
    using skipw [OF w0, of fence_json] a6 by simp
  have b3: "remove_all fence w3 = w3"
    using skipw [OF w3, of fence "[]"] by simp
  have b4: "remove_all fence (closing @ w3) = w3"
  proof (cases "closing = []")
    case True
    then show ?thesis using b3 by simp
  next
    case False
    then have c: "closing = fence" using cl by simp
    show ?thesis using remove_all_hit_append [of fence w3] b3 c by (simp add: fence_unfold)
  qed
  have b5: "remove_all fence ?Y = w1 @ core @ w2 @ w3"
    using skipw [OF w1, of fence] skipc [of fence] skipw [OF w2, of fence] b4 by simp
  have b6: "remove_all fence (opening' @ ?Y) = w1 @ core @ w2 @ w3"
  proof (cases "opening = fence")
    case True
    then show ?thesis
      using remove_all_hit_append [of fence ?Y] b5 by (simp add: opening'_def fence_unfold)
  next
    case False
    then show ?thesis using b5 by (simp add: opening'_def)
  qed
  have b7: "remove_all fence (w0 @ opening' @ ?Y) = w0 @ w1 @ core @ w2 @ w3"
    using skipw [OF w0, of fence] b6 by simp
  have "cleanJson (w0 @ opening @ ?Y) = trim ((w0 @ w1) @ core @ (w2 @ w3))"
    by (simp add: cleanJson_def a7 b7)
  also have "\<dots> = trim core"
    by (rule trim_white_append) (use w0 w1 w2 w3 in auto)
  also have "\<dots> = core" using ne h(3) l(2) by (rule trim_id)
  finally show ?thesis by simp
qed

lemma trim_decompose:
  "\<exists>a c. t = a @ trim t @ c \<and> (\<forall>x\<in>set a. is_white_space x) \<and> (\<forall>x\<in>set c. is_white_space x)"
proof -
  define d where "d = dropWhile is_white_space t"
  have 1: "t = takeWhile is_white_space t @ d" by (simp add: d_def)
  have "d = rev (takeWhile is_white_space (rev d) @ dropWhile is_white_space (rev d))"
    by (simp only: takeWhile_dropWhile_id rev_rev_ident)
  also have "\<dots> = rev (dropWhile is_white_space (rev d)) @ rev (takeWhile is_white_space (rev d))"
    by (rule rev_append)
  finally have 2: "d = trim t @ rev (takeWhile is_white_space (rev d))"
    by (simp only: trim_def d_def)
  have 3: "\<forall>x\<in>set (takeWhile is_white_space t). is_white_space x"
    by (auto dest: set_takeWhileD)
  have 4: "\<forall>x\<in>set (rev (takeWhile is_white_space (rev d))). is_white_space x"
    by (auto dest: set_takeWhileD)
  have "t = takeWhile is_white_space t @ trim t @ rev (takeWhile is_white_space (rev d))"
    using 1 2 by simp
  then show ?thesis using 3 4 by blast
qed

lemma starts_with_white_tail:
  assumes "\<forall>x\<in>set p. \<not> is_white_space x" and "\<forall>x\<in>set c. is_white_space x"
  shows "starts_with p (s @ c) \<longleftrightarrow> starts_with p s"
  using assms
proof (induction p s rule: starts_with.induct)
  case (1 s)
  then show ?case by simp
next
  case (2 p ps)
  then show ?case by (cases c) auto
next
  case (3 p ps x xs)
  then show ?case by simp
qed

lemma remove_all_Nil: "remove_all [] s = s"
  by (induction s) auto

lemma remove_all_white:
  assumes "\<forall>x\<in>set p. \<not> is_white_space x" and "\<forall>x\<in>set c. is_white_space x"
  shows "remove_all p c = c"
proof (cases p)
  case Nil
  then show ?thesis by (simp add: remove_all_Nil)
next
  case (Cons b ps)
  then have "\<not> is_white_space b" using assms(1) by simp
  then show ?thesis using remove_all_skip_white [OF assms(2), of b ps "[]"] Cons by simp
qed

lemma starts_with_length: "starts_with p s \<Longrightarrow> length p \<le> length s"
  by (auto simp: starts_with_append)

lemma remove_all_white_tail:
  assumes "\<forall>x\<in>set p. \<not> is_white_space x" and "\<forall>x\<in>set c. is_white_space x"
  shows "remove_all p (s @ c) = remove_all p s @ c"
proof (induction s rule: length_induct)
  case (1 s)
  show ?case
  proof (cases s)
    case Nil
    then show ?thesis using remove_all_white [OF assms] by simp
  next
    case (Cons x xs)
    show ?thesis
    proof (cases "p \<noteq> [] \<and> starts_with p (x # xs)")
      case True
      then have sw: "starts_with p (x # (xs @ c))"
        using starts_with_white_tail [OF assms, of "x # xs"] by simp
      have len: "length p \<le> length (x # xs)" using True by (simp only: starts_with_length)
      have "remove_all p (s @ c) = remove_all p (drop (length p) (x # (xs @ c)))"
        using True sw Cons remove_all_hit [of p x "xs @ c"] by simp
      also have "drop (length p) (x # (xs @ c)) = drop (length p) (x # xs) @ c"
      proof -
        have "drop (length p) ((x # xs) @ c) =
            drop (length p) (x # xs) @ drop (length p - length (x # xs)) c"
          by (rule drop_append)
        moreover have "length p - length (x # xs) = 0" using len by simp
        ultimately show ?thesis by simp
      qed
      also have "remove_all p (drop (length p) (x # xs) @ c) = remove_all p (drop (length p) (x # xs)) @ c"
        using 1 True Cons by (cases p) auto
      also have "remove_all p (drop (length p) (x # xs)) = remove_all p s"
        using True Cons remove_all_hit [of p x xs] by simp
      finally show ?thesis .
    next
      case False
      then have "\<not> (p \<noteq> [] \<and> starts_with p (x # (xs @ c)))"
        using starts_with_white_tail [OF assms, of "x # xs"] by simp
      then have "remove_all p (s @ c) = x # remove_all p (xs @ c)" using Cons by auto
      moreover have "remove_all p (xs @ c) = remove_all p xs @ c" using 1 Cons by simp
      moreover have "remove_all p s = x # remove_all p xs" using False Cons by auto
      ultimately show ?thesis by simp
    qed
  qed
qed

lemma cleanJson_trim: "cleanJson (trim t) = cleanJson t"
proof -
  obtain a c where t: "t = a @ trim t @ c"
    and a: "\<forall>x\<in>set a. is_white_space x" and c: "\<forall>x\<in>set c. is_white_space x"
    using trim_decompose by blast
  have nb: "\<not> is_white_space (0x60 :: code_unit)" by (simp add: is_white_space_def)
  have nj: "\<forall>x\<in>set fence_json. \<not> is_white_space x"
    by (simp add: fence_json_unfold is_white_space_def)
  have nf: "\<forall>x\<in>set fence. \<not> is_white_space x"
    by (simp add: fence_unfold is_white_space_def)
  have "remove_all fence_json (a @ trim t @ c) = a @ remove_all fence_json (trim t) @ c"
    using remove_all_skip_white [OF a nb] remove_all_white_tail [OF nj c]
    by (simp add: fence_json_unfold)
  moreover have "remove_all fence (a @ remove_all fence_json (trim t) @ c) =
      a @ remove_all fence (remove_all fence_json (trim t)) @ c"
    using remove_all_skip_white [OF a nb] remove_all_white_tail [OF nf c]
    by (simp add: fence_unfold)
  ultimately have "cleanJson (a @ trim t @ c) = trim (a @ remove_all fence (remove_all fence_json (trim t)) @ c)"
    by (simp add: cleanJson_def)
  also have "\<dots> = trim (remove_all fence (remove_all fence_json (trim t)))"
    using a c by (rule trim_white_append)
  finally show ?thesis using t by (simp add: cleanJson_def)
qed

subsection \<open>What the parser reads\<close>

lemma well_read_single: "x \<noteq> 0x60 \<Longrightarrow> well_read (x # r) r"
proof -
  assume "x \<noteq> 0x60"
  then have "x # r = [x] @ r \<and> [x] \<noteq> [] \<and> last [x] \<noteq> 0x60" by simp
  then show ?thesis unfolding well_read_def by blast
qed

lemma well_read_prepend: "well_read s r \<Longrightarrow> well_read (a @ s) r"
proof -
  assume "well_read s r"
  then obtain c where "s = c @ r" "c \<noteq> []" "last c \<noteq> 0x60" by (auto simp: well_read_def)
  then have "a @ s = (a @ c) @ r \<and> a @ c \<noteq> [] \<and> last (a @ c) \<noteq> 0x60" by simp
  then show ?thesis unfolding well_read_def by blast
qed

lemma well_read_Cons: "well_read s r \<Longrightarrow> well_read (x # s) r"
  using well_read_prepend [of s r "[x]"] by simp

lemma well_read_skip_ws: "well_read (skip_ws s) r \<Longrightarrow> well_read s r"
proof -
  assume a: "well_read (skip_ws s) r"
  have "s = takeWhile is_json_ws s @ skip_ws s" by (simp add: skip_ws_def)
  then show ?thesis using well_read_prepend [OF a, of "takeWhile is_json_ws s"] by simp
qed

lemma well_read_after: "s = c @ r1 \<Longrightarrow> well_read r1 r \<Longrightarrow> well_read s r"
  using well_read_prepend by blast

lemma well_read_skip_ws_eq: "skip_ws s = t \<Longrightarrow> well_read t r \<Longrightarrow> well_read s r"
  using well_read_skip_ws by blast

lemma cons_fst_Some: "cons_fst x m = Some (ys, r) \<Longrightarrow> \<exists>xs. m = Some (xs, r) \<and> ys = x # xs"
  by (auto simp: cons_fst_def split: option.splits)

lemma string_body_reads:
  "string_body s = Some (x, r) \<Longrightarrow> \<exists>c. s = c @ r \<and> c \<noteq> [] \<and> last c = 0x22"
proof (induction s arbitrary: x r rule: length_induct)
  case (1 s)
  note IH = 1(1) and run = 1(2)
  obtain c cs where s: "s = c # cs" using run by (cases s) auto
  show ?case
  proof (cases "c = 0x22")
    case True
    then have "s = [c] @ r \<and> [c] \<noteq> [] \<and> last [c] = 0x22" using run s by simp
    then show ?thesis by blast
  next
    case nq: False
    show ?thesis
    proof (cases "c = 0x5C")
      case True
      then obtain e es where cs: "cs = e # es" using run s nq by (cases cs) auto
      show ?thesis
      proof (cases "e = 0x75")
        case u: True
        then obtain h1 h2 h3 h4 rest where es: "es = h1 # h2 # h3 # h4 # rest"
          using run s nq True cs by (auto split: list.splits)
        then obtain w where w: "hex4 h1 h2 h3 h4 = Some w"
          using run s nq True cs u by (auto split: option.splits)
        then have "cons_fst w (string_body rest) = Some (x, r)"
          using run s nq True cs u es by simp
        then obtain x' where "string_body rest = Some (x', r)" by (auto dest: cons_fst_Some)
        moreover have "length rest < length s" using s cs es by simp
        ultimately obtain c' where "rest = c' @ r" "c' \<noteq> []" "last c' = 0x22"
          using IH by blast
        then have "s = (c # e # h1 # h2 # h3 # h4 # c') @ r \<and>
            c # e # h1 # h2 # h3 # h4 # c' \<noteq> [] \<and> last (c # e # h1 # h2 # h3 # h4 # c') = 0x22"
          using s cs es by simp
        then show ?thesis by blast
      next
        case nu: False
        then obtain w where w: "escape e = Some w"
          using run s nq True cs by (auto split: option.splits)
        then have "cons_fst w (string_body es) = Some (x, r)"
          using run s nq True cs nu by simp
        then obtain x' where "string_body es = Some (x', r)" by (auto dest: cons_fst_Some)
        moreover have "length es < length s" using s cs by simp
        ultimately obtain c' where "es = c' @ r" "c' \<noteq> []" "last c' = 0x22"
          using IH by blast
        then have "s = (c # e # c') @ r \<and> c # e # c' \<noteq> [] \<and> last (c # e # c') = 0x22"
          using s cs by simp
        then show ?thesis by blast
      qed
    next
      case nb: False
      then have "cons_fst c (string_body cs) = Some (x, r)"
        using run s nq by (auto split: if_splits)
      then obtain x' where "string_body cs = Some (x', r)" by (auto dest: cons_fst_Some)
      moreover have "length cs < length s" using s by simp
      ultimately obtain c' where "cs = c' @ r" "c' \<noteq> []" "last c' = 0x22"
        using IH by blast
      then have "s = (c # c') @ r \<and> c # c' \<noteq> [] \<and> last (c # c') = 0x22" using s by simp
      then show ?thesis by blast
    qed
  qed
qed

lemma string_body_well_read: "string_body s = Some (x, r) \<Longrightarrow> well_read s r"
  using string_body_reads [of s x r] unfolding well_read_def by fastforce

lemma digit_not_backtick: "is_digit c \<Longrightarrow> c \<noteq> 0x60"
  by (auto simp: is_digit_def)

lemma digits_reads:
  "digits s = Some (ds, r) \<Longrightarrow> s = ds @ r \<and> ds \<noteq> [] \<and> is_digit (last ds)"
proof -
  assume a: "digits s = Some (ds, r)"
  then have ds: "ds = takeWhile is_digit s" "r = dropWhile is_digit s" "ds \<noteq> []"
    by (auto simp: digits_def split: if_splits)
  then have "last ds \<in> set (takeWhile is_digit s)" by simp
  then have "is_digit (last ds)" by (rule set_takeWhileD [THEN conjunct2])
  then show ?thesis using ds by simp
qed

lemma int_part_reads:
  "int_part s = Some (i, r) \<Longrightarrow> s = i @ r \<and> i \<noteq> [] \<and> is_digit (last i)"
  by (cases s) (auto simp: int_part_def is_digit_def dest: digits_reads split: if_splits)

lemma frac_part_reads:
  "frac_part s = Some (f, r) \<Longrightarrow> s = f @ r \<and> (f = [] \<or> is_digit (last f))"
  by (cases s) (auto simp: frac_part_def dest: digits_reads split: if_splits option.splits)

lemma exp_part_reads:
  "exp_part s = Some (e, r) \<Longrightarrow> s = e @ r \<and> (e = [] \<or> is_digit (last e))"
  by (cases s; cases "tl s")
    (auto simp: exp_part_def dest: digits_reads split: if_splits option.splits)

lemma number_reads:
  assumes "number s = Some (lexeme, r)"
  shows "s = lexeme @ r \<and> lexeme \<noteq> [] \<and> is_digit (last lexeme)"
proof -
  obtain sign s1 where sg: "(case s of [] \<Rightarrow> ([], s) | c # cs \<Rightarrow> if c = 0x2D then ([c], cs) else ([], s)) = (sign, s1)"
    by (cases "(case s of [] \<Rightarrow> ([], s) | c # cs \<Rightarrow> if c = 0x2D then ([c], cs) else ([], s))") auto
  then have s: "s = sign @ s1" by (cases s) (auto split: if_splits)
  obtain i s2 where i: "int_part s1 = Some (i, s2)"
    using assms sg by (auto simp: number_def split: option.splits)
  obtain f s3 where f: "frac_part s2 = Some (f, s3)"
    using assms sg i by (auto simp: number_def split: option.splits)
  obtain e where e: "exp_part s3 = Some (e, r)" and lx: "lexeme = sign @ i @ f @ e"
    using assms sg i f by (auto simp: number_def split: option.splits)
  have 1: "s1 = i @ s2" "i \<noteq> []" "is_digit (last i)" using int_part_reads [OF i] by auto
  have 2: "s2 = f @ s3" "f = [] \<or> is_digit (last f)" using frac_part_reads [OF f] by auto
  have 3: "s3 = e @ r" "e = [] \<or> is_digit (last e)" using exp_part_reads [OF e] by auto
  have "is_digit (last (sign @ i @ f @ e))" using 1 2 3 by (cases "e = []"; cases "f = []") auto
  then show ?thesis using s 1 2 3 lx by simp
qed

lemma number_well_read: "number s = Some (lexeme, r) \<Longrightarrow> well_read s r"
  using number_reads [of s lexeme r] digit_not_backtick unfolding well_read_def by blast

lemma literal_well_read:
  "starts_with p s \<Longrightarrow> p \<noteq> [] \<Longrightarrow> last p \<noteq> 0x60 \<Longrightarrow> well_read s (drop (length p) s)"
proof -
  assume a: "starts_with p s" "p \<noteq> []" "last p \<noteq> 0x60"
  then obtain r where "s = p @ r" by (auto simp: starts_with_append)
  then have "s = p @ drop (length p) s" by simp
  then show ?thesis using a unfolding well_read_def by blast
qed

lemma skip_ws_Cons_well_read:
  "skip_ws s = d # ds \<Longrightarrow> well_read (d # ds) r \<Longrightarrow> well_read s r"
  using well_read_skip_ws [of s r] by simp

lemma parse_well_read:
  "(\<forall>s v r. parse_value n s = Some (v, r) \<longrightarrow> well_read s r) \<and>
   (\<forall>s vs r. parse_elements n s = Some (vs, r) \<longrightarrow> well_read s r) \<and>
   (\<forall>s kvs r. parse_members n s = Some (kvs, r) \<longrightarrow> well_read s r)"
proof (induction n)
  case 0
  then show ?case by simp
next
  case (Suc n)
  then have IHv: "\<And>s v r. parse_value n s = Some (v, r) \<Longrightarrow> well_read s r"
    and IHe: "\<And>s vs r. parse_elements n s = Some (vs, r) \<Longrightarrow> well_read s r"
    and IHm: "\<And>s kvs r. parse_members n s = Some (kvs, r) \<Longrightarrow> well_read s r"
    by blast+
  have v: "well_read s r" if run: "parse_value (Suc n) s = Some (v, r)" for s v r
  proof -
    obtain c cs where s: "s = c # cs" using run by (cases s) auto
    consider (arr) "c = 0x5B" | (obj) "c \<noteq> 0x5B" "c = 0x7B" | (str) "c \<noteq> 0x5B" "c \<noteq> 0x7B" "c = 0x22"
      | (other) "c \<noteq> 0x5B" "c \<noteq> 0x7B" "c \<noteq> 0x22" by blast
    then show ?thesis
    proof cases
      case arr
      then obtain d ds where d: "skip_ws cs = d # ds"
        using run s by (cases "skip_ws cs") auto
      have "well_read (d # ds) r"
      proof (cases "d = 0x5D")
        case True
        then have "r = ds" using run s arr d by simp
        then show ?thesis using True by (simp add: well_read_single)
      next
        case False
        then obtain vs where "parse_elements n (d # ds) = Some (vs, r)"
          using run s arr d by (auto split: option.splits)
        then show ?thesis by (rule IHe)
      qed
      then have "well_read cs r" using d by (rule skip_ws_Cons_well_read [rotated])
      then show ?thesis using s by (simp add: well_read_Cons)
    next
      case obj
      then obtain d ds where d: "skip_ws cs = d # ds"
        using run s by (cases "skip_ws cs") auto
      have "well_read (d # ds) r"
      proof (cases "d = 0x7D")
        case True
        then have "r = ds" using run s obj d by simp
        then show ?thesis using True by (simp add: well_read_single)
      next
        case False
        then obtain kvs where "parse_members n (d # ds) = Some (kvs, r)"
          using run s obj d by (auto split: option.splits)
        then show ?thesis by (rule IHm)
      qed
      then have "well_read cs r" using d by (rule skip_ws_Cons_well_read [rotated])
      then show ?thesis using s by (simp add: well_read_Cons)
    next
      case str
      then obtain x where "string_body cs = Some (x, r)"
        using run s by (auto split: option.splits)
      then have "well_read cs r" by (rule string_body_well_read)
      then show ?thesis using s by (simp add: well_read_Cons)
    next
      case other
      consider (t) "starts_with (lit ''true'') s"
        | (f) "\<not> starts_with (lit ''true'') s" "starts_with (lit ''false'') s"
        | (n) "\<not> starts_with (lit ''true'') s" "\<not> starts_with (lit ''false'') s"
              "starts_with (lit ''null'') s"
        | (num) "\<not> starts_with (lit ''true'') s" "\<not> starts_with (lit ''false'') s"
              "\<not> starts_with (lit ''null'') s" by blast
      then show ?thesis
      proof cases
        case t
        then have r: "r = drop 4 s" using run s other by (simp add: lit_def)
        have len: "length (lit ''true'') = 4" by (simp add: lit_def)
        have "well_read s (drop (length (lit ''true'')) s)"
          by (rule literal_well_read [OF t]) (simp_all add: lit_def)
        then show ?thesis unfolding len r .
      next
        case f
        then have r: "r = drop 5 s" using run s other by (simp add: lit_def)
        have len: "length (lit ''false'') = 5" by (simp add: lit_def)
        have "well_read s (drop (length (lit ''false'')) s)"
          by (rule literal_well_read [OF f(2)]) (simp_all add: lit_def)
        then show ?thesis unfolding len r .
      next
        case n
        then have r: "r = drop 4 s" using run s other by (simp add: lit_def)
        have len: "length (lit ''null'') = 4" by (simp add: lit_def)
        have "well_read s (drop (length (lit ''null'')) s)"
          by (rule literal_well_read [OF n(3)]) (simp_all add: lit_def)
        then show ?thesis unfolding len r .
      next
        case num
        then obtain lexeme where "number s = Some (lexeme, r)"
          using run s other by (auto split: option.splits)
        then show ?thesis by (rule number_well_read)
      qed
    qed
  qed
  have e: "well_read s r" if run: "parse_elements (Suc n) s = Some (vs, r)" for s vs r
  proof -
    obtain v r1 where pv: "parse_value n s = Some (v, r1)"
      using run by (auto split: option.splits)
    obtain d ds where d: "skip_ws r1 = d # ds"
      using run pv by (cases "skip_ws r1") auto
    have "well_read (d # ds) r"
    proof (cases "d = 0x2C")
      case True
      then have "cons_fst v (parse_elements n (skip_ws ds)) = Some (vs, r)"
        using run pv d by simp
      then obtain vs' where "parse_elements n (skip_ws ds) = Some (vs', r)"
        by (auto dest: cons_fst_Some)
      then have "well_read (skip_ws ds) r" by (rule IHe)
      then have "well_read ds r" by (rule well_read_skip_ws)
      then show ?thesis by (rule well_read_Cons)
    next
      case False
      then have "d = 0x5D" "r = ds" using run pv d by (auto split: if_splits)
      then show ?thesis by (simp add: well_read_single)
    qed
    then have 1: "well_read r1 r" using d by (rule skip_ws_Cons_well_read [rotated])
    obtain c where "s = c @ r1" using IHv [OF pv] by (auto simp: well_read_def)
    then show ?thesis using 1 by (rule well_read_after)
  qed
  have m: "well_read s r" if run: "parse_members (Suc n) s = Some (kvs, r)" for s kvs r
  proof -
    obtain q qs where s: "s = q # qs" using run by (cases s) auto
    then have q: "q = 0x22" using run by (auto split: if_splits)
    obtain k r0 where sb: "string_body qs = Some (k, r0)"
      using run s q by (auto split: option.splits)
    obtain d ds where d: "skip_ws r0 = d # ds"
      using run s q sb by (cases "skip_ws r0") auto
    then have colon: "d = 0x3A" using run s q sb by (auto split: if_splits)
    obtain v r1 where pv: "parse_value n (skip_ws ds) = Some (v, r1)"
      using run s q sb d colon by (auto split: option.splits)
    obtain e es where e: "skip_ws r1 = e # es"
      using run s q sb d colon pv by (cases "skip_ws r1") auto
    have "well_read (e # es) r"
    proof (cases "e = 0x2C")
      case True
      then have "cons_fst (k, v) (parse_members n (skip_ws es)) = Some (kvs, r)"
        using run s q sb d colon pv e by simp
      then obtain kvs' where "parse_members n (skip_ws es) = Some (kvs', r)"
        by (auto dest: cons_fst_Some)
      then have "well_read (skip_ws es) r" by (rule IHm)
      then have "well_read es r" by (rule well_read_skip_ws)
      then show ?thesis by (rule well_read_Cons)
    next
      case False
      then have "e = 0x7D" "r = es" using run s q sb d colon pv e by (auto split: if_splits)
      then show ?thesis by (simp add: well_read_single)
    qed
    then have "well_read r1 r" using e by (rule skip_ws_Cons_well_read [rotated])
    moreover obtain c1 where "skip_ws ds = c1 @ r1" using IHv [OF pv] by (auto simp: well_read_def)
    ultimately have "well_read (skip_ws ds) r" by (rule well_read_after [rotated])
    then have "well_read ds r" by (rule well_read_skip_ws)
    then have "well_read (d # ds) r" by (rule well_read_Cons)
    then have "well_read r0 r" using d by (rule skip_ws_Cons_well_read [rotated])
    moreover obtain c0 where "qs = c0 @ r0" using string_body_reads [OF sb] by blast
    ultimately have "well_read qs r" by (rule well_read_after [rotated])
    then show ?thesis using s by (simp add: well_read_Cons)
  qed
  show ?case using v e m by blast
qed

lemma number_first: "number (c # cs) = Some (lexeme, r) \<Longrightarrow> c = 0x2D \<or> is_digit c"
proof -
  assume a: "number (c # cs) = Some (lexeme, r)"
  show ?thesis
  proof (cases "c = 0x2D")
    case True
    then show ?thesis by simp
  next
    case False
    then obtain i s2 where "int_part (c # cs) = Some (i, s2)"
      using a by (auto simp: number_def split: option.splits)
    then have "c = 0x30 \<or> takeWhile is_digit (c # cs) \<noteq> []"
      by (auto simp: int_part_def digits_def split: if_splits)
    then show ?thesis by (auto simp: is_digit_def split: if_splits)
  qed
qed

lemma parse_value_first:
  assumes "parse_value n s = Some (v, r)"
  shows "s \<noteq> [] \<and> hd s \<noteq> 0x60 \<and> hd s \<noteq> 0x6A"
proof -
  obtain k where n: "n = Suc k" using assms by (cases n) auto
  obtain c cs where s: "s = c # cs" using assms n by (cases s) auto
  have "c = 0x5B \<or> c = 0x7B \<or> c = 0x22 \<or> c = 0x74 \<or> c = 0x66 \<or> c = 0x6E \<or> c = 0x2D \<or> is_digit c"
    using assms n s by (auto simp: lit_def dest: number_first split: if_splits option.splits)
  then show ?thesis using s by (auto simp: is_digit_def)
qed

lemma json_ws_white: "is_json_ws c \<Longrightarrow> is_white_space c"
  by (auto simp: is_json_ws_def is_white_space_def)

lemma trim_ends:
  assumes "trim s = s" and "s \<noteq> []"
  shows "\<not> is_white_space (hd s) \<and> \<not> is_white_space (last s)"
proof -
  define d where "d = dropWhile is_white_space s"
  have t: "s = rev (dropWhile is_white_space (rev d))" using assms(1) by (simp add: trim_def d_def)
  then have ne: "dropWhile is_white_space (rev d) \<noteq> []" using assms(2) by auto
  have "last s = hd (dropWhile is_white_space (rev d))"
    using t ne by (metis last_rev)
  then have l: "\<not> is_white_space (last s)" using hd_dropWhile [OF ne] by simp
  have "length s \<le> length d"
    using t length_dropWhile_le [of is_white_space "rev d"] by (metis length_rev)
  moreover have "length (takeWhile is_white_space s) + length d = length s"
    unfolding d_def by (metis length_append takeWhile_dropWhile_id)
  ultimately have "length (takeWhile is_white_space s) = 0" by linarith
  then have "takeWhile is_white_space s = []" by (simp only: length_0_conv)
  then have "d = s" unfolding d_def by (metis append_Nil takeWhile_dropWhile_id)
  then have "\<not> is_white_space (hd s)"
    using hd_dropWhile [of is_white_space s] assms(2) by (simp add: d_def)
  then show ?thesis using l by simp
qed

lemma json_text_ends:
  assumes "JSON_parse core = Some v" and "trim core = core"
  shows "core \<noteq> [] \<and> hd core \<noteq> 0x6A \<and> hd core \<noteq> 0x60 \<and> \<not> is_white_space (hd core) \<and>
         last core \<noteq> 0x60 \<and> \<not> is_white_space (last core)"
proof -
  obtain r where pv: "parse_value (2 * length core + 2) (skip_ws core) = Some (v, r)"
    and r: "skip_ws r = []"
    using assms(1) by (auto simp: JSON_parse_def split: option.splits if_splits)
  have ne: "core \<noteq> []" using pv by (auto simp: skip_ws_def)
  then have ends: "\<not> is_white_space (hd core)" "\<not> is_white_space (last core)"
    using trim_ends [OF assms(2)] by simp_all
  then have "\<not> is_json_ws (hd core)" using json_ws_white by blast
  then have sk: "skip_ws core = core" using ne by (cases core) (auto simp: skip_ws_def)
  have h: "hd core \<noteq> 0x60 \<and> hd core \<noteq> 0x6A" using parse_value_first [OF pv] sk by simp
  obtain c where c: "core = c @ r" "c \<noteq> []" "last c \<noteq> 0x60"
    using parse_well_read [of "2 * length core + 2"] pv sk unfolding well_read_def by metis
  have "r = []"
  proof (rule ccontr)
    assume "r \<noteq> []"
    then have "last core = last r" "last r \<in> set r" using c(1) by simp_all
    moreover have "\<forall>x\<in>set r. is_json_ws x" using r by (simp add: skip_ws_def)
    ultimately show False using ends(2) json_ws_white by metis
  qed
  then have "last core \<noteq> 0x60" using c by simp
  then show ?thesis using ne h ends by simp
qed

subsection \<open>The depth bound of the parser\<close>

text \<open>
  The bound \<open>JSON_parse\<close> gives to the recursive descent never cuts a parse short: with any
  larger bound the result is the same.
\<close>

lemma well_read_shorter: "well_read s r \<Longrightarrow> length r < length s"
  by (auto simp: well_read_def)

lemma skip_ws_shorter: "length (skip_ws s) \<le> length s"
  by (simp add: skip_ws_def length_dropWhile_le)

lemma skip_ws_Cons_shorter: "skip_ws s = d # ds \<Longrightarrow> length ds < length s"
  using skip_ws_shorter [of s] by simp

lemma parse_value_Nil: "parse_value n [] = None"
  by (cases n) simp_all

lemma parse_value_step:
  assumes "\<And>d ds. skip_ws cs = d # ds \<Longrightarrow> parse_elements m (d # ds) = parse_elements n (d # ds)"
    and "\<And>d ds. skip_ws cs = d # ds \<Longrightarrow> parse_members m (d # ds) = parse_members n (d # ds)"
  shows "parse_value (Suc m) (c # cs) = parse_value (Suc n) (c # cs)"
proof (cases "skip_ws cs")
  case Nil
  show ?thesis
    apply (subst parse_value.simps(3))
    apply (subst parse_value.simps(3))
    apply (simp only: Nil list.case)
    done
next
  case (Cons d ds)
  show ?thesis
    apply (subst parse_value.simps(3))
    apply (subst parse_value.simps(3))
    apply (simp only: Cons list.case assms(1) [OF Cons] assms(2) [OF Cons])
    done
qed

lemma parse_elements_step:
  assumes "parse_value m s = parse_value n s"
    and "\<And>x r d ds. parse_value n s = Some (x, r) \<Longrightarrow> skip_ws r = d # ds \<Longrightarrow>
           parse_elements m (skip_ws ds) = parse_elements n (skip_ws ds)"
  shows "parse_elements (Suc m) s = parse_elements (Suc n) s"
proof (cases "parse_value n s")
  case None
  show ?thesis
    apply (subst parse_elements.simps(2))
    apply (subst parse_elements.simps(2))
    apply (simp only: assms(1) None option.case)
    done
next
  case (Some a)
  obtain x r where pv: "parse_value n s = Some (x, r)" using Some by (cases a) auto
  show ?thesis
  proof (cases "skip_ws r")
    case Nil
    show ?thesis
      apply (subst parse_elements.simps(2))
      apply (subst parse_elements.simps(2))
      apply (simp only: assms(1) pv option.case prod.case Nil list.case)
      done
  next
    case (Cons d ds)
    show ?thesis
      apply (subst parse_elements.simps(2))
      apply (subst parse_elements.simps(2))
      apply (simp only: assms(1) pv option.case prod.case Cons list.case assms(2) [OF pv Cons])
      done
  qed
qed

lemma parse_members_step:
  assumes "\<And>q qs k r0 d ds. s = q # qs \<Longrightarrow> string_body qs = Some (k, r0) \<Longrightarrow>
             skip_ws r0 = d # ds \<Longrightarrow> parse_value m (skip_ws ds) = parse_value n (skip_ws ds)"
    and "\<And>q qs k r0 d ds x r1 e es. s = q # qs \<Longrightarrow> string_body qs = Some (k, r0) \<Longrightarrow>
             skip_ws r0 = d # ds \<Longrightarrow> parse_value n (skip_ws ds) = Some (x, r1) \<Longrightarrow>
             skip_ws r1 = e # es \<Longrightarrow>
             parse_members m (skip_ws es) = parse_members n (skip_ws es)"
  shows "parse_members (Suc m) s = parse_members (Suc n) s"
proof (cases s)
  case Nil
  show ?thesis
    apply (subst parse_members.simps(2))
    apply (subst parse_members.simps(2))
    apply (simp only: Nil list.case)
    done
next
  case s: (Cons q qs)
  show ?thesis
  proof (cases "string_body qs")
    case None
    show ?thesis
      apply (subst parse_members.simps(2))
      apply (subst parse_members.simps(2))
      apply (simp only: s list.case None option.case)
      done
  next
    case (Some a)
    obtain k r0 where sb: "string_body qs = Some (k, r0)" using Some by (cases a) auto
    show ?thesis
    proof (cases "skip_ws r0")
      case Nil
      show ?thesis
        apply (subst parse_members.simps(2))
        apply (subst parse_members.simps(2))
        apply (simp only: s list.case sb option.case prod.case Nil)
        done
    next
      case sk: (Cons d ds)
      note pv = assms(1) [OF s sb sk]
      show ?thesis
      proof (cases "parse_value n (skip_ws ds)")
        case None
        show ?thesis
          apply (subst parse_members.simps(2))
          apply (subst parse_members.simps(2))
          apply (simp only: s list.case sb option.case prod.case sk pv None)
          done
      next
        case (Some a')
        obtain x r1 where px: "parse_value n (skip_ws ds) = Some (x, r1)"
          using Some by (cases a') auto
        show ?thesis
        proof (cases "skip_ws r1")
          case Nil
          show ?thesis
            apply (subst parse_members.simps(2))
            apply (subst parse_members.simps(2))
            apply (simp only: s list.case sb option.case prod.case sk pv px Nil)
            done
        next
          case sk1: (Cons e es)
          show ?thesis
            apply (subst parse_members.simps(2))
            apply (subst parse_members.simps(2))
            apply (simp only: s list.case sb option.case prod.case sk pv px sk1
                assms(2) [OF s sb sk px sk1])
            done
        qed
      qed
    qed
  qed
qed

lemma fuel_enough:
  "(\<forall>s m. 2 * length s \<le> n \<longrightarrow> n \<le> m \<longrightarrow> parse_value m s = parse_value n s) \<and>
   (\<forall>s m. 2 * length s + 1 \<le> n \<longrightarrow> n \<le> m \<longrightarrow> parse_elements m s = parse_elements n s) \<and>
   (\<forall>s m. 2 * length s + 1 \<le> n \<longrightarrow> n \<le> m \<longrightarrow> parse_members m s = parse_members n s)"
proof (induction n)
  case 0
  then show ?case by (simp add: parse_value_Nil)
next
  case (Suc n)
  then have IHv: "\<And>s m. 2 * length s \<le> n \<Longrightarrow> n \<le> m \<Longrightarrow> parse_value m s = parse_value n s"
    and IHe: "\<And>s m. 2 * length s + 1 \<le> n \<Longrightarrow> n \<le> m \<Longrightarrow> parse_elements m s = parse_elements n s"
    and IHm: "\<And>s m. 2 * length s + 1 \<le> n \<Longrightarrow> n \<le> m \<Longrightarrow> parse_members m s = parse_members n s"
    by blast+
  have v: "parse_value (Suc m) s = parse_value (Suc n) s"
    if b: "2 * length s \<le> Suc n" and le: "n \<le> m" for s m
  proof (cases s)
    case Nil
    then show ?thesis by (simp only: parse_value_Nil)
  next
    case (Cons c cs)
    have bound: "2 * length (d # ds) + 1 \<le> n" if "skip_ws cs = d # ds" for d ds
    proof -
      have "length (d # ds) \<le> length cs" using skip_ws_shorter [of cs] that by simp
      then show ?thesis using b Cons by simp
    qed
    show ?thesis
      unfolding Cons
    proof (rule parse_value_step)
      fix d ds
      assume sk: "skip_ws cs = d # ds"
      show "parse_elements m (d # ds) = parse_elements n (d # ds)"
        using bound [OF sk] le by (rule IHe)
      show "parse_members m (d # ds) = parse_members n (d # ds)"
        using bound [OF sk] le by (rule IHm)
    qed
  qed
  have e: "parse_elements (Suc m) s = parse_elements (Suc n) s"
    if b: "2 * length s + 1 \<le> Suc n" and le: "n \<le> m" for s m
  proof (rule parse_elements_step)
    have "2 * length s \<le> n" using b by simp
    then show "parse_value m s = parse_value n s" using le by (rule IHv)
  next
    fix x r d ds
    assume pv: "parse_value n s = Some (x, r)" and sk: "skip_ws r = d # ds"
    have "well_read s r" using parse_well_read [of n] pv by blast
    then have "length r < length s" by (rule well_read_shorter)
    moreover have "length ds < length r" using sk by (rule skip_ws_Cons_shorter)
    ultimately have "2 * length (skip_ws ds) + 1 \<le> n"
      using b skip_ws_shorter [of ds] by simp
    then show "parse_elements m (skip_ws ds) = parse_elements n (skip_ws ds)"
      using le by (rule IHe)
  qed
  have mm: "parse_members (Suc m) s = parse_members (Suc n) s"
    if b: "2 * length s + 1 \<le> Suc n" and le: "n \<le> m" for s m
  proof (rule parse_members_step)
    fix q qs k r0 d ds
    assume h: "s = q # qs" "string_body qs = Some (k, r0)" "skip_ws r0 = d # ds"
    obtain c0 where "qs = c0 @ r0" using string_body_reads [OF h(2)] by blast
    then have "length r0 \<le> length qs" by simp
    moreover have "length ds < length r0" using h(3) by (rule skip_ws_Cons_shorter)
    ultimately have "2 * length (skip_ws ds) \<le> n"
      using b h(1) skip_ws_shorter [of ds] by simp
    then show "parse_value m (skip_ws ds) = parse_value n (skip_ws ds)" using le by (rule IHv)
  next
    fix q qs k r0 d ds x r1 e es
    assume h: "s = q # qs" "string_body qs = Some (k, r0)" "skip_ws r0 = d # ds"
      "parse_value n (skip_ws ds) = Some (x, r1)" "skip_ws r1 = e # es"
    obtain c0 where "qs = c0 @ r0" using string_body_reads [OF h(2)] by blast
    then have "length r0 \<le> length qs" by simp
    moreover have "length ds < length r0" using h(3) by (rule skip_ws_Cons_shorter)
    moreover have "well_read (skip_ws ds) r1" using parse_well_read [of n] h(4) by blast
    then have "length r1 < length (skip_ws ds)" by (rule well_read_shorter)
    moreover have "length es < length r1" using h(5) by (rule skip_ws_Cons_shorter)
    ultimately have "2 * length (skip_ws es) + 1 \<le> n"
      using b h(1) skip_ws_shorter [of ds] skip_ws_shorter [of es] by simp
    then show "parse_members m (skip_ws es) = parse_members n (skip_ws es)" using le by (rule IHm)
  qed
  have "parse_value m s = parse_value (Suc n) s"
    if h: "2 * length s \<le> Suc n" "Suc n \<le> m" for s m
  proof -
    obtain m' where m: "m = Suc m'" "n \<le> m'" using h(2) by (cases m) simp_all
    show ?thesis unfolding m(1) using h(1) m(2) by (rule v)
  qed
  moreover have "parse_elements m s = parse_elements (Suc n) s"
    if h: "2 * length s + 1 \<le> Suc n" "Suc n \<le> m" for s m
  proof -
    obtain m' where m: "m = Suc m'" "n \<le> m'" using h(2) by (cases m) simp_all
    show ?thesis unfolding m(1) using h(1) m(2) by (rule e)
  qed
  moreover have "parse_members m s = parse_members (Suc n) s"
    if h: "2 * length s + 1 \<le> Suc n" "Suc n \<le> m" for s m
  proof -
    obtain m' where m: "m = Suc m'" "n \<le> m'" using h(2) by (cases m) simp_all
    show ?thesis unfolding m(1) using h(1) m(2) by (rule mm)
  qed
  ultimately show ?case by blast
qed

lemma JSON_parse_fuel:
  assumes "2 * length s + 2 \<le> m"
  shows "parse_value m (skip_ws s) = parse_value (2 * length s + 2) (skip_ws s)"
proof -
  note enough = fuel_enough [of "2 * length (skip_ws s)", THEN conjunct1, rule_format]
  have b: "2 * length (skip_ws s) \<le> 2 * length s + 2" using skip_ws_shorter [of s] by simp
  then have "2 * length (skip_ws s) \<le> m" using assms by simp
  then have "parse_value m (skip_ws s) = parse_value (2 * length (skip_ws s)) (skip_ws s)"
    by (intro enough) simp_all
  moreover have "parse_value (2 * length s + 2) (skip_ws s) =
      parse_value (2 * length (skip_ws s)) (skip_ws s)"
    using b by (intro enough) simp_all
  ultimately show ?thesis by simp
qed

subsection \<open>What \<^verbatim>\<open>JSON.stringify\<close> writes\<close>

lemma first_names_distinct: "distinct names \<Longrightarrow> rev (remdups (rev names)) = names"
  by (simp add: distinct_remdups_id)

lemma own_property_distinct:
  "distinct (map fst members) \<Longrightarrow> (name, v) \<in> set members \<Longrightarrow> own_property members name = Some v"
  unfolding own_property_def by (rule map_of_is_SomeI) (simp_all add: rev_map [symmetric])

lemma own_properties_distinct:
  assumes "distinct (map fst members)" and "list_all (\<lambda>member. \<not> is_array_index (fst member)) members"
  shows "own_properties members = members"
proof -
  have 1: "filter is_array_index (map fst members) = []"
    using assms(2) by (induction members) auto
  have 2: "filter (\<lambda>name. \<not> is_array_index name) (map fst members) = map fst members"
    using assms(2) by (induction members) auto
  have "property_names members = map fst members"
    by (simp add: property_names_def first_names_distinct [OF assms(1)] 1 2)
  moreover have "map (\<lambda>name. (name, case own_property members name of Some v \<Rightarrow> v | None \<Rightarrow> JNull))
      (map fst members) = members"
  proof (rule nth_equalityI)
    show "length (map (\<lambda>name. (name, case own_property members name of Some v \<Rightarrow> v | None \<Rightarrow> JNull))
      (map fst members)) = length members" by simp
  next
    fix i assume "i < length (map (\<lambda>name. (name, case own_property members name of Some v \<Rightarrow> v | None \<Rightarrow> JNull))
      (map fst members))"
    then have i: "i < length members" by simp
    then have "(fst (members ! i), snd (members ! i)) \<in> set members" by simp
    then have "own_property members (fst (members ! i)) = Some (snd (members ! i))"
      by (rule own_property_distinct [OF assms(1)])
    then show "map (\<lambda>name. (name, case own_property members name of Some v \<Rightarrow> v | None \<Rightarrow> JNull))
      (map fst members) ! i = members ! i" using i by simp
  qed
  ultimately show ?thesis by (simp add: own_properties_def)
qed

text \<open>
  A value whose numbers the engine prints as they are written and whose objects have
  distinct names, none an array index, is written back as it is.
\<close>

lemma as_written_unchanged: "unchanged rt v \<Longrightarrow> as_written rt v = v"
proof (induction v)
  case (JArr xs)
  then show ?case by (simp add: list_all_iff map_idI)
next
  case (JObj members)
  have "map (\<lambda>member. (fst member, as_written rt (snd member))) members = members"
  proof (rule map_idI)
    fix member assume m: "member \<in> set members"
    then have "unchanged rt (snd member)" using JObj.prems by (simp add: list_all_iff)
    moreover have "snd member \<in> Basic_BNFs.snds member" by (cases member) simp
    ultimately have "as_written rt (snd member) = snd member" using JObj.IH m by blast
    then show "(fst member, as_written rt (snd member)) = member" by simp
  qed
  moreover have "own_properties members = members"
    using JObj.prems by (intro own_properties_distinct) (simp_all add: list_all_iff)
  ultimately show ?case by simp
qed simp_all

text \<open>The elements of an array are written in their order, none added and none removed.\<close>

lemma as_written_array:
  "as_written rt (JArr xs) = JArr ys \<Longrightarrow>
   length ys = length xs \<and> (\<forall>i<length xs. ys ! i = as_written rt (xs ! i))"
  by auto

text \<open>
  An engine that finds the literal \<^verbatim>\<open>1e999\<close> not finite writes \<^verbatim>\<open>null\<close> for it; of two members
  of the same name the last is written; a name that is an array index moves to the front.
\<close>

lemma as_written_not_verbatim:
  "number_to_json rt (lit ''1e999'') = None \<Longrightarrow>
     as_written rt (JArr [JNum (lit ''1e999'')]) = JArr [JNull]"
  "as_written rt (JObj [(lit ''a'', JStr (lit ''x'')), (lit ''a'', JStr (lit ''y''))]) =
     JObj [(lit ''a'', JStr (lit ''y''))]"
  "as_written rt (JObj [(lit ''b'', JStr (lit ''x'')), (lit ''1'', JStr (lit ''y''))]) =
     JObj [(lit ''1'', JStr (lit ''y'')), (lit ''b'', JStr (lit ''x''))]"
  by (simp, code_simp, code_simp)

text \<open>
  The objects the handlers build themselves are written as they are and never exhaust the
  stack: \<open>respond\<close> gives the response \<^verbatim>\<open>res.status(st).json(b)\<close> sends for them.
\<close>

lemma handler_objects_written:
  "as_written rt (error_body message) = error_body message"
  "as_written rt (parse_error_body cleaned) = parse_error_body cleaned"
  "as_written rt (JObj [(lit ''error'', JStr message), (lit ''note'', JStr note_server_js)]) =
     JObj [(lit ''error'', JStr message), (lit ''note'', JStr note_server_js)]"
  "\<not> stringify_throws rt (error_body message)"
  "\<not> stringify_throws rt (parse_error_body cleaned)"
  "\<not> stringify_throws rt (JObj [(lit ''error'', JStr message), (lit ''note'', JStr note_server_js)])"
  by (code_simp, code_simp, code_simp)
    (simp_all add: stringify_throws_def error_body_def parse_error_body_def)

lemma res_json_ok:
  "\<not> stringify_throws rt v \<Longrightarrow> res_json rt v = Returned \<lparr>status = 200, body = Json (as_written rt v)\<rparr>"
  by (simp add: res_json_def JSON_stringify_def and_then_def)

lemma res_json_throws:
  "stringify_throws rt v \<Longrightarrow> res_json rt v = Thrown RangeError"
  by (simp add: res_json_def JSON_stringify_def and_then_def)

subsection \<open>The checks on a successful reply\<close>

lemma get_member_ok:
  "get (Some b) k = Next v \<Longrightarrow> \<exists>w. get (Some b) k' = Next w"
  by (cases b) (auto simp: get_def)

lemma get_defined: "v = Some j \<Longrightarrow> j \<noteq> JNull \<Longrightarrow> get v k = Next (get_opt v k)"
  by (cases j) (auto simp: get_def get_opt_def)

lemma get_Some: "j \<noteq> JNull \<Longrightarrow> get (Some j) k = Next (get_opt (Some j) k)"
  by (rule get_defined) simp_all

lemma truthy_defined: "truthy rt v \<Longrightarrow> \<exists>j. v = Some j \<and> j \<noteq> JNull"
  by (cases v) (auto simp: truthy_def)

lemma truthy_get: "truthy rt v \<Longrightarrow> get v k = Next (get_opt v k)"
  using truthy_defined get_defined by blast

lemma get_opt_Some: "get_opt v k = Some x \<Longrightarrow> \<exists>j. v = Some j \<and> j \<noteq> JNull"
  by (cases v; cases "the v") (auto simp: get_opt_def get_def)

lemma get_opt_get: "get_opt v k = Some x \<Longrightarrow> get v k = Next (Some x)"
  using get_opt_Some [of v k x] get_defined [of v _ k] by auto

lemma candidates_check_ok:
  assumes "successful_reply rt j t"
  shows "candidates_check rt j = Next (first_candidate j)"
proof -
  have 1: "get (Some j) (Prop (lit ''candidates'')) = Next (get_opt (Some j) (Prop (lit ''candidates'')))"
    using assms by (simp add: successful_reply_def get_Some)
  have 2: "truthy rt (get_opt (Some j) (Prop (lit ''candidates'')))"
    using assms by (simp add: successful_reply_def)
  have 3: "get (get_opt (Some j) (Prop (lit ''candidates''))) (Index 0) = Next (first_candidate j)"
    using truthy_get [OF 2] by (simp add: first_candidate_def)
  have 4: "truthy rt (first_candidate j)" using assms by (simp add: successful_reply_def)
  show ?thesis by (simp add: candidates_check_def and_then_def 1 2 3 4)
qed

lemma blockReason_check_ok:
  assumes "successful_reply rt j t"
  shows "blockReason_check rt j = Next ()"
proof -
  let ?pf = "get_opt (Some j) (Prop (lit ''promptFeedback''))"
  have 1: "get (Some j) (Prop (lit ''promptFeedback'')) = Next ?pf"
    using assms by (simp add: successful_reply_def get_Some)
  have 2: "\<not> truthy rt (get_opt ?pf (Prop (lit ''blockReason'')))"
    using assms by (simp add: successful_reply_def)
  show ?thesis
  proof (cases "truthy rt ?pf")
    case True
    then have "get ?pf (Prop (lit ''blockReason'')) = Next (get_opt ?pf (Prop (lit ''blockReason'')))"
      by (rule truthy_get)
    then show ?thesis using True 2 by (simp add: blockReason_check_def and_then_def 1)
  next
    case False
    then show ?thesis by (simp add: blockReason_check_def and_then_def 1)
  qed
qed

lemma finishReason_check_ok:
  assumes "successful_reply rt j t"
  shows "finishReason_check (first_candidate j) = Next ()"
proof -
  have "truthy rt (first_candidate j)" using assms by (simp add: successful_reply_def)
  then have "get (first_candidate j) (Prop (lit ''finishReason'')) =
      Next (get_opt (first_candidate j) (Prop (lit ''finishReason'')))"
    by (rule truthy_get)
  then show ?thesis using assms by (simp add: finishReason_check_def and_then_def successful_reply_def)
qed

lemma text_chain:
  assumes "get_opt (get_opt (get_opt (get_opt c (Prop (lit ''content'')))
       (Prop (lit ''parts''))) (Index 0)) (Prop (lit ''text'')) = Some (JStr t)"
  shows "get c (Prop (lit ''content'')) = Next (get_opt c (Prop (lit ''content'')))"
    and "get (get_opt c (Prop (lit ''content''))) (Prop (lit ''parts'')) =
         Next (get_opt (get_opt c (Prop (lit ''content''))) (Prop (lit ''parts'')))"
    and "get (get_opt (get_opt c (Prop (lit ''content''))) (Prop (lit ''parts''))) (Index 0) =
         Next (get_opt (get_opt (get_opt c (Prop (lit ''content''))) (Prop (lit ''parts''))) (Index 0))"
    and "get (get_opt (get_opt (get_opt c (Prop (lit ''content''))) (Prop (lit ''parts''))) (Index 0))
           (Prop (lit ''text'')) = Next (Some (JStr t))"
proof -
  let ?content = "get_opt c (Prop (lit ''content''))"
  let ?parts = "get_opt ?content (Prop (lit ''parts''))"
  let ?part = "get_opt ?parts (Index 0)"
  show 4: "get ?part (Prop (lit ''text'')) = Next (Some (JStr t))"
    using assms by (rule get_opt_get)
  obtain p where p: "?part = Some p" "p \<noteq> JNull" using get_opt_Some [OF assms] by blast
  then show 3: "get ?parts (Index 0) = Next ?part" using get_opt_get [of ?parts "Index 0" p] by simp
  obtain ps where ps: "?parts = Some ps" "ps \<noteq> JNull" using get_opt_Some [OF p(1)] by blast
  then show 2: "get ?content (Prop (lit ''parts'')) = Next ?parts"
    using get_opt_get [of ?content "Prop (lit ''parts'')" ps] by simp
  obtain ct where ct: "?content = Some ct" using get_opt_Some [OF ps(1)] by blast
  then show "get c (Prop (lit ''content'')) = Next ?content"
    using get_opt_get [of c "Prop (lit ''content'')" ct] by simp
qed

lemma rawText_of_ok:
  assumes "successful_reply rt j t"
  shows "rawText_of (first_candidate j) = Next (trim t)"
proof -
  have "get_opt (get_opt (get_opt (get_opt (first_candidate j) (Prop (lit ''content'')))
       (Prop (lit ''parts''))) (Index 0)) (Prop (lit ''text'')) = Some (JStr t)"
    using assms by (simp add: successful_reply_def)
  note c = text_chain [OF this]
  show ?thesis
    by (simp add: rawText_of_def and_then_def c string_receiver_def)
qed

lemma generatedText_of_ok:
  assumes "successful_reply rt j t"
  shows "generatedText_of j = Next (Some (JStr t))"
proof -
  have 1: "get (Some j) (Prop (lit ''candidates'')) = Next (get_opt (Some j) (Prop (lit ''candidates'')))"
    using assms by (simp add: successful_reply_def get_Some)
  show ?thesis
    using assms by (simp add: generatedText_of_def and_then_def 1 successful_reply_def first_candidate_def)
qed

lemma after_fetch_server_js_ok:
  assumes "JSON_parse reply_text = Some j" and "successful_reply rt j t"
    and "JSON_parse (cleanJson t) = Some v" and "v \<noteq> JNull"
    and "\<not> stringify_throws rt j" and "\<not> stringify_throws rt v"
  shows "after_fetch_server_js rt request (Response st reply_text) =
           Returned \<lparr>status = 200, body = Json (as_written rt v)\<rparr>"
proof -
  have 0: "JSON_stringify rt j = Next (as_written rt j)"
    using assms(5) by (simp add: JSON_stringify_def)
  have 1: "response_json request (Response st reply_text) = Next j"
    by (simp add: response_json_def assms(1))
  have 2: "get (Some j) (Prop (lit ''error'')) = Next (get_opt (Some j) (Prop (lit ''error'')))"
    using assms(2) by (simp add: successful_reply_def get_Some)
  have 3: "\<not> truthy rt (get_opt (Some j) (Prop (lit ''error'')))"
    using assms(2) by (simp add: successful_reply_def)
  have 4: "JSON_parse (cleanJson (trim t)) = Some v" using assms(3) by (simp add: cleanJson_trim)
  have 5: "get (Some v) (Prop (lit ''length'')) = Next (get_opt (Some v) (Prop (lit ''length'')))"
    using assms(4) by (rule get_Some)
  show ?thesis
    by (simp add: after_fetch_server_js_def and_then_def 0 1 2 3 4 5 res_json_ok [OF assms(6)]
        candidates_check_ok [OF assms(2)] blockReason_check_ok [OF assms(2)]
        finishReason_check_ok [OF assms(2)] rawText_of_ok [OF assms(2)])
qed

lemma after_fetch_part_002_ok:
  assumes "JSON_parse reply_text = Some j" and "successful_reply rt j t"
    and "JSON_parse (cleanJson t) = Some v"
    and "\<not> stringify_throws rt j" and "\<not> stringify_throws rt v"
  shows "after_fetch_part_002 rt request (Response st reply_text) =
           Returned \<lparr>status = 200, body = Json (as_written rt v)\<rparr>"
proof -
  have 0: "JSON_stringify rt j = Next (as_written rt j)"
    using assms(4) by (simp add: JSON_stringify_def)
  have 1: "response_json request (Response st reply_text) = Next j"
    by (simp add: response_json_def assms(1))
  have 4: "JSON_parse (cleanJson (trim t)) = Some v" using assms(3) by (simp add: cleanJson_trim)
  show ?thesis
    by (simp add: after_fetch_part_002_def and_then_def 0 1 4 res_json_ok [OF assms(5)]
        candidates_check_ok [OF assms(2)] blockReason_check_ok [OF assms(2)]
        finishReason_check_ok [OF assms(2)] rawText_of_ok [OF assms(2)])
qed

lemma after_fetch_part_001_ok:
  assumes "JSON_parse reply_text = Some j" and "successful_reply rt j t"
    and "JSON_parse (cleanJson t) = Some v" and "ok st" and "t \<noteq> []"
    and "\<not> stringify_throws rt v"
  shows "after_fetch_part_001 rt request (Response st reply_text) =
           Returned \<lparr>status = 200, body = Json (as_written rt v)\<rparr>"
proof -
  have 1: "response_json request (Response st reply_text) = Next j"
    by (simp add: response_json_def assms(1))
  have 2: "truthy rt (Some (JStr t))" using assms(5) by (simp add: truthy_def)
  show ?thesis
    by (simp add: after_fetch_part_001_def and_then_def 1 2 assms(3,4) res_json_ok [OF assms(6)]
        generatedText_of_ok [OF assms(2)] string_receiver_def)
qed

lemma before_fetch_ok:
  assumes "GEMINI_API_KEY e = Some k" and "k \<noteq> []"
    and "get (Some req_body) (Prop (lit ''imageData'')) = Next (Some (JStr d))" and "d \<noteq> []"
  shows "\<exists>request. before_fetch_server_js f e req_body = Next request"
    and "\<exists>request. before_fetch_part_001 rt e req_body = Next request"
    and "\<exists>request. before_fetch_part_002 e req_body = Next request"
proof -
  obtain mediaType where m: "get (Some req_body) (Prop (lit ''mediaType'')) = Next mediaType"
    using get_member_ok [OF assms(3)] by blast
  show "\<exists>request. before_fetch_server_js f e req_body = Next request"
    by (simp add: before_fetch_server_js_def and_then_def assms m or_else_def is_set_def)
  show "\<exists>request. before_fetch_part_001 rt e req_body = Next request"
    by (simp add: before_fetch_part_001_def and_then_def assms m truthy_def)
  show "\<exists>request. before_fetch_part_002 e req_body = Next request"
    by (simp add: before_fetch_part_002_def and_then_def assms m)
qed

text \<open>server.js and part_000 go on with GOOGLE_API_KEY where GEMINI_API_KEY is not set.\<close>

lemma before_fetch_server_js_either_key:
  assumes "is_set (GEMINI_API_KEY e) \<or> is_set (GOOGLE_API_KEY e)"
    and "get (Some req_body) (Prop (lit ''imageData'')) = Next imageData"
  shows "\<exists>request. before_fetch_server_js f e req_body = Next request"
proof -
  obtain mediaType where m: "get (Some req_body) (Prop (lit ''mediaType'')) = Next mediaType"
    using get_member_ok [OF assms(2)] by blast
  have "is_set (or_else (GEMINI_API_KEY e) (GOOGLE_API_KEY e))"
    using assms(1) by (auto simp: or_else_def)
  then obtain k where "or_else (GEMINI_API_KEY e) (GOOGLE_API_KEY e) = Some k" "k \<noteq> []"
    by (cases "or_else (GEMINI_API_KEY e) (GOOGLE_API_KEY e)") (auto simp: is_set_def)
  then show ?thesis
    by (simp add: before_fetch_server_js_def and_then_def assms(2) m)
qed

subsection \<open>Input presence\<close>

text \<open>
  Claim C10. In part_001, the version that validates the presence of the input, an
  imageData that is the empty string is treated as an absent one: the check is
  \<^verbatim>\<open>!imageData\<close>, so that undefined, null and the empty string all give the response 400
  "No image data provided", and no upstream call is made.
\<close>

theorem falsy_imageData_rejected:
  assumes "get (Some req_body) (Prop (lit ''imageData'')) = Next imageData"
    and "imageData = None \<or> imageData = Some JNull \<or> imageData = Some (JStr [])"
  shows "process_image Part_001 rt e fetch req_body =
           \<lparr>calls = [],
            reply = \<lparr>status = 400,
                     body = Json (JObj [(lit ''error'', JStr (lit ''No image data provided''))])\<rparr>\<rparr>"
proof -
  obtain mediaType where m: "get (Some req_body) (Prop (lit ''mediaType'')) = Next mediaType"
    using get_member_ok [OF assms(1)] by blast
  have "\<not> truthy rt imageData" using assms(2) by (auto simp: truthy_def)
  then have "before_fetch_part_001 rt e req_body =
      Returned (respond 400 (error_body (lit ''No image data provided'')))"
    by (simp add: before_fetch_part_001_def and_then_def assms(1) m)
  then show ?thesis
    by (simp add: process_image_def handler_part_001_def serve_def respond_def error_body_def)
qed

theorem falsy_imageData_rejected_witness:
  "process_image Part_001 example_runtime example_env (\<lambda>request. Rejected [])
     (JObj [(lit ''imageData'', JStr []), (lit ''mediaType'', JStr (lit ''image/png''))]) =
   \<lparr>calls = [],
    reply = \<lparr>status = 400,
             body = Json (JObj [(lit ''error'', JStr (lit ''No image data provided''))])\<rparr>\<rparr>"
proof -
  have "get (Some (JObj [(lit ''imageData'', JStr []), (lit ''mediaType'', JStr (lit ''image/png''))]))
          (Prop (lit ''imageData'')) = Next (Some (JStr []))"
    by code_simp
  then show ?thesis by (rule falsy_imageData_rejected) simp
qed



text \<open>The whole outcome in server.js, for an endpoint that answers 400 to the empty request.\<close>

lemma absent_imageData_server_js_outcome:
  "process_image Server_js rt example_env
     (\<lambda>request. Response 400 (lit ''{\"error\":{\"code\":400,\"message\":\"Bad Request\"}}'')) (JObj []) =
   \<lparr>calls = [\<lparr>url = apiURL Server_js (lit ''k3y''), mime_type = None, inline_data = None\<rparr>],
    reply = \<lparr>status = 500,
             body = Json (JObj [(lit ''error'', JStr (lit ''API Error: Bad Request'')),
                                (lit ''note'', JStr note_server_js)])\<rparr>\<rparr>"
  by code_simp

subsection \<open>Unmatched requests\<close>




subsection \<open>Absent credential\<close>

text \<open>
  Claim C4 says that every request made while the key is absent is answered by a 500
  configuration error. In part_001 the presence check of imageData comes first: a request
  without imageData is answered 400 also when the key is absent.
\<close>

theorem credential_absent_part_001_counterexample:
  "GEMINI_API_KEY no_key_env = None \<and> GOOGLE_API_KEY no_key_env = None \<and>
   process_image Part_001 example_runtime no_key_env (\<lambda>request. Rejected []) (JObj []) =
     \<lparr>calls = [],
      reply = \<lparr>status = 400,
               body = Json (JObj [(lit ''error'', JStr (lit ''No image data provided''))])\<rparr>\<rparr>"
  by code_simp

text \<open>
  Claim C4 as amended. With no usable key in the environment (absent or empty; server.js
  and part_000 read GEMINI_API_KEY and then GOOGLE_API_KEY, part_001 and part_002 only
  GEMINI_API_KEY), every request whose body is an object or an array, and in part_001
  whose imageData is truthy, gets the status 500 and the fixed response
  \<open>missing_key_reply\<close> of that file, and no upstream call is made. The response is a constant of
  the file: it does not depend on the environment, so that no part of any value stored there
  can appear in it.
\<close>

theorem credential_absent_config_error:
  assumes "\<not> is_set (GEMINI_API_KEY e)"
    and "f = Server_js \<or> f = Part_000 \<Longrightarrow> \<not> is_set (GOOGLE_API_KEY e)"
    and "get (Some req_body) (Prop (lit ''imageData'')) = Next imageData"
    and "f = Part_001 \<Longrightarrow> truthy rt imageData"
  shows "process_image f rt e fetch req_body = \<lparr>calls = [], reply = missing_key_reply f\<rparr>"
proof -
  obtain mediaType where m: "get (Some req_body) (Prop (lit ''mediaType'')) = Next mediaType"
    using get_member_ok [OF assms(3)] by blast
  have g: "GEMINI_API_KEY e = None \<or> GEMINI_API_KEY e = Some []"
    using assms(1) by (cases "GEMINI_API_KEY e") (auto simp: is_set_def)
  have o: "or_else (GEMINI_API_KEY e) (GOOGLE_API_KEY e) = None \<or>
           or_else (GEMINI_API_KEY e) (GOOGLE_API_KEY e) = Some []"
    if "f = Server_js \<or> f = Part_000"
    using assms(1) assms(2) [OF that]
    by (cases "GOOGLE_API_KEY e") (auto simp: or_else_def is_set_def)
  show ?thesis
  proof (cases f)
    case Server_js
    then show ?thesis using o
      by (auto simp: process_image_def handler_server_js_def serve_def before_fetch_server_js_def
          and_then_def assms(3) m missing_key_reply_def catch_server_js_def respond_def error_message_def)
  next
    case Part_000
    then show ?thesis using o
      by (auto simp: process_image_def handler_server_js_def serve_def before_fetch_server_js_def
          and_then_def assms(3) m missing_key_reply_def catch_server_js_def respond_def error_message_def)
  next
    case Part_001
    then show ?thesis using g assms(4)
      by (auto simp: process_image_def handler_part_001_def serve_def before_fetch_part_001_def
          and_then_def assms(3) m missing_key_reply_def respond_def error_body_def)
  next
    case Part_002
    then show ?thesis using g
      by (auto simp: process_image_def handler_part_002_def serve_def before_fetch_part_002_def
          and_then_def assms(3) m missing_key_reply_def catch_plain_def respond_def error_body_def
          error_message_def)
  qed
qed

text \<open>
  In part_002 with GOOGLE_API_KEY set and GEMINI_API_KEY absent, and in server.js with
  neither.
\<close>

theorem credential_absent_config_error_witness:
  "process_image Part_002 example_runtime google_key_env (\<lambda>request. Rejected []) example_body =
     \<lparr>calls = [],
      reply = \<lparr>status = 500,
               body = Json (JObj [(lit ''error'', JStr missing_key_message_part_002)])\<rparr>\<rparr> \<and>
   process_image Server_js example_runtime no_key_env (\<lambda>request. Rejected []) example_body =
     \<lparr>calls = [],
      reply = \<lparr>status = 500,
               body = Json (JObj [(lit ''error'', JStr missing_key_message_server_js),
                                  (lit ''note'', JStr note_server_js)])\<rparr>\<rparr>"
proof -
  have 1: "\<not> is_set (GEMINI_API_KEY google_key_env)" "\<not> is_set (GEMINI_API_KEY no_key_env)"
    by (simp_all add: google_key_env_def no_key_env_def is_set_def)
  have 2: "\<not> is_set (GOOGLE_API_KEY no_key_env)" by (simp add: no_key_env_def is_set_def)
  have 3: "get (Some example_body) (Prop (lit ''imageData'')) = Next (Some (JStr (lit ''aGk='')))"
    by code_simp
  show ?thesis
    using credential_absent_config_error [OF 1(1) _ 3, of Part_002 example_runtime "\<lambda>request. Rejected []"]
      credential_absent_config_error [OF 1(2) 2 3, of Server_js example_runtime "\<lambda>request. Rejected []"]
    by (simp add: missing_key_reply_def)
qed

subsection \<open>Generated text that is not JSON\<close>

text \<open>
  server.js (as part_000) and part_002 answer a generated text that does not parse with the
  status 400 and the cleaned text in the field \<open>raw\<close>.
\<close>

lemma parse_failure_server_js_part_002:
  "reply (process_image Server_js rt example_env
            (\<lambda>request. Response 200 (reply_with_text (lit ''not json''))) example_body) =
     \<lparr>status = 400,
      body = Json (JObj [(lit ''error'', JStr (lit ''Error al parsear respuesta del modelo'')),
                         (lit ''raw'', JStr (lit ''not json''))])\<rparr> \<and>
   reply (process_image Part_002 rt example_env
            (\<lambda>request. Response 200 (reply_with_text (lit ''not json''))) example_body) =
     \<lparr>status = 400,
      body = Json (JObj [(lit ''error'', JStr (lit ''Error al parsear respuesta del modelo'')),
                         (lit ''raw'', JStr (lit ''not json''))])\<rparr>"
  by code_simp

text \<open>
  In general: in these files, a successful reply (one the log of line 108 can serialise)
  whose generated text does not parse after the cleanup is answered 400 with the cleaned
  text.
\<close>

lemma parse_failure_raw_returned:
  assumes "f \<noteq> Part_001"
    and key: "GEMINI_API_KEY e = Some k" "k \<noteq> []"
    and image: "get (Some req_body) (Prop (lit ''imageData'')) = Next (Some (JStr d))" "d \<noteq> []"
    and up: "\<And>request. fetch request = Response st reply_text"
    and reply: "JSON_parse reply_text = Some j" "successful_reply rt j t"
    and logged: "\<not> stringify_throws rt j"
    and bad: "JSON_parse (cleanJson t) = None"
  shows "\<exists>request. process_image f rt e fetch req_body =
           \<lparr>calls = [request],
            reply = \<lparr>status = 400,
                     body = Json (JObj [(lit ''error'', JStr (lit ''Error al parsear respuesta del modelo'')),
                                        (lit ''raw'', JStr (cleanJson t))])\<rparr>\<rparr>"
proof -
  note b = before_fetch_ok [OF key image]
  have 0: "\<And>request. response_json request (Response st reply_text) = Next j"
    by (simp add: response_json_def reply(1))
  have l: "JSON_stringify rt j = Next (as_written rt j)"
    using logged by (simp add: JSON_stringify_def)
  have 1: "get (Some j) (Prop (lit ''error'')) = Next (get_opt (Some j) (Prop (lit ''error'')))"
    using reply(2) by (simp add: successful_reply_def get_Some)
  have 2: "\<not> truthy rt (get_opt (Some j) (Prop (lit ''error'')))"
    using reply(2) by (simp add: successful_reply_def)
  have 3: "JSON_parse (cleanJson (trim t)) = None" using bad by (simp add: cleanJson_trim)
  have a: "\<And>request. after_fetch_server_js rt request (Response st reply_text) =
      Returned (respond 400 (parse_error_body (cleanJson t)))"
    by (simp add: after_fetch_server_js_def and_then_def 0 l 1 2 3 bad cleanJson_trim
        candidates_check_ok [OF reply(2)] blockReason_check_ok [OF reply(2)]
        finishReason_check_ok [OF reply(2)] rawText_of_ok [OF reply(2)])
  have c: "\<And>request. after_fetch_part_002 rt request (Response st reply_text) =
      Returned (respond 400 (parse_error_body (cleanJson t)))"
    by (simp add: after_fetch_part_002_def and_then_def 0 l 3 bad cleanJson_trim
        candidates_check_ok [OF reply(2)] blockReason_check_ok [OF reply(2)]
        finishReason_check_ok [OF reply(2)] rawText_of_ok [OF reply(2)])
  show ?thesis
  proof (cases f)
    case Server_js
    obtain request where "before_fetch_server_js f e req_body = Next request" using b(1) by blast
    then show ?thesis
      using Server_js a
      by (simp add: process_image_def handler_server_js_def serve_def finish_def up respond_def
          parse_error_body_def)
  next
    case Part_000
    obtain request where "before_fetch_server_js f e req_body = Next request" using b(1) by blast
    then show ?thesis
      using Part_000 a
      by (simp add: process_image_def handler_server_js_def serve_def finish_def up respond_def
          parse_error_body_def)
  next
    case Part_001
    then show ?thesis using assms(1) by simp
  next
    case Part_002
    obtain request where "before_fetch_part_002 e req_body = Next request" using b(3) by blast
    then show ?thesis
      using Part_002 c
      by (simp add: process_image_def handler_part_002_def serve_def finish_def up respond_def
          parse_error_body_def)
  qed
qed

text \<open>
  Claim C5 says that a generated text that is not valid JSON is answered 400 with the cleaned
  text in the body. part_001 has no inner \<^verbatim>\<open>try\<close> around \<^verbatim>\<open>JSON.parse\<close>: the SyntaxError reaches
  the outer \<^verbatim>\<open>catch\<close>, and the response is a 500 whose only field is the message of that
  error.
\<close>

theorem parse_failure_part_001:
  "reply (process_image Part_001 rt example_env
            (\<lambda>request. Response 200 (reply_with_text (lit ''not json''))) example_body) =
     \<lparr>status = 500,
      body = Json (JObj [(lit ''error'', JStr (syntax_error_message rt (lit ''not json'')))])\<rparr>"
  by code_simp

subsection \<open>Blocked prompts\<close>

text \<open>
  part_002 reads the block reason before it looks at the candidates: a reply with the block
  reason SAFETY and no candidates is answered with a message that names it.
\<close>

lemma block_reason_part_002:
  "reply (process_image Part_002 rt example_env
            (\<lambda>request. Response 200 (lit ''{\"promptFeedback\":{\"blockReason\":\"SAFETY\"}}'')) example_body) =
     \<lparr>status = 500,
      body = Json (JObj [(lit ''error'', JStr (lit ''Contenido bloqueado por seguridad: SAFETY''))])\<rparr>"
  by code_simp

text \<open>
  In general: part_002 names the block reason of every reply that has one (and that the log
  of line 75 can serialise).
\<close>

lemma block_reason_named_part_002:
  assumes key: "GEMINI_API_KEY e = Some k" "k \<noteq> []"
    and image: "get (Some req_body) (Prop (lit ''imageData'')) = Next (Some (JStr d))" "d \<noteq> []"
    and up: "\<And>request. fetch request = Response st reply_text"
    and reply: "JSON_parse reply_text = Some j" "\<not> stringify_throws rt j"
    and blocked: "get_opt (get_opt (Some j) (Prop (lit ''promptFeedback''))) (Prop (lit ''blockReason'')) =
                    Some (JStr reason)" "reason \<noteq> []"
  shows "\<exists>request. process_image Part_002 rt e fetch req_body =
           \<lparr>calls = [request],
            reply = \<lparr>status = 500,
                     body = Json (JObj [(lit ''error'',
                              JStr (lit ''Contenido bloqueado por seguridad: '' @ reason))])\<rparr>\<rparr>"
proof -
  obtain request where rq: "before_fetch_part_002 e req_body = Next request"
    using before_fetch_ok(3) [OF key image] by blast
  let ?pf = "get_opt (Some j) (Prop (lit ''promptFeedback''))"
  obtain p where p: "?pf = Some p" "p \<noteq> JNull" using get_opt_Some [OF blocked(1)] by blast
  then obtain j' where "Some j = Some j'" "j' \<noteq> JNull" using get_opt_Some [of "Some j"] by blast
  then have 1: "get (Some j) (Prop (lit ''promptFeedback'')) = Next ?pf" by (simp add: get_Some)
  have 2: "truthy rt ?pf"
  proof (rule ccontr)
    assume "\<not> truthy rt ?pf"
    then have "get_opt ?pf (Prop (lit ''blockReason'')) = None"
      using p by (cases p) (auto simp: truthy_def get_opt_def get_def lit_def)
    then show False using blocked(1) by simp
  qed
  have 3: "get ?pf (Prop (lit ''blockReason'')) = Next (Some (JStr reason))"
    using blocked(1) by (rule get_opt_get)
  have 4: "truthy rt (Some (JStr reason))" using blocked(2) by (simp add: truthy_def)
  have "blockReason_check rt j =
      Thrown (Error (lit ''Contenido bloqueado por seguridad: '' @ reason))"
    by (simp add: blockReason_check_def and_then_def 1 2 3 4 to_string_def)
  then have "after_fetch_part_002 rt request (Response st reply_text) =
      Thrown (Error (lit ''Contenido bloqueado por seguridad: '' @ reason))"
    by (simp add: after_fetch_part_002_def and_then_def response_json_def reply JSON_stringify_def)
  then show ?thesis
    using rq
    by (simp add: process_image_def handler_part_002_def serve_def finish_def up catch_plain_def
        respond_def error_body_def error_message_def)
qed

text \<open>
  Claim C6 says that a reply with the block reason SAFETY gives an error that mentions SAFETY,
  whether or not the reply has candidates. server.js (as part_000) checks the candidates
  first, so that the same reply is answered with the invalid-response message, which does not
  mention SAFETY; part_001 never reads the block reason, and answers 200 where the blocked
  reply has a candidate with a text.
\<close>

theorem block_reason_server_js_part_001:
  "reply (process_image Server_js rt example_env
            (\<lambda>request. Response 200 (lit ''{\"promptFeedback\":{\"blockReason\":\"SAFETY\"}}'')) example_body) =
     \<lparr>status = 500,
      body = Json (JObj [(lit ''error'', JStr invalid_response_message),
                         (lit ''note'', JStr note_server_js)])\<rparr> \<and>
   \<not> occurs (lit ''SAFETY'') invalid_response_message \<and>
   \<not> occurs (lit ''SAFETY'') note_server_js \<and>
   reply (process_image Part_001 rt example_env
            (\<lambda>request. Response 200 (lit ''{\"promptFeedback\":{\"blockReason\":\"SAFETY\"}}'')) example_body) =
     \<lparr>status = 500,
      body = Json (JObj [(lit ''error'', JStr (lit ''No data returned from AI''))])\<rparr> \<and>
   reply (process_image Part_001 rt example_env
            (\<lambda>request. Response 200
               (lit ''{\"promptFeedback\":{\"blockReason\":\"SAFETY\"},\"candidates\":[{\"content\":{\"parts\":[{\"text\":\"[]\"}]}}]}''))
            example_body) =
     \<lparr>status = 200, body = Json (JArr [])\<rparr>"
  by code_simp

subsection \<open>Upstream errors\<close>

text \<open>
  part_001 checks \<^verbatim>\<open>response.ok\<close> and puts the status and the body of the reply in the
  message.
\<close>

lemma upstream_status_part_001:
  "reply (process_image Part_001 rt example_env
            (\<lambda>request. Response 429 (lit ''{\"error\":{\"code\":429,\"message\":\"quota\"}}'')) example_body) =
     \<lparr>status = 500,
      body = Json (JObj [(lit ''error'',
               JStr (lit ''Gemini API Error: 429 - {\"error\":{\"code\":429,\"message\":\"quota\"}}''))])\<rparr>"
  by code_simp

text \<open>
  A call that is rejected (a transport failure) is answered 500 with the message of the
  rejection, in every file.
\<close>

lemma transport_failure:
  "reply (process_image Server_js rt example_env (\<lambda>request. Rejected message) example_body) =
     \<lparr>status = 500,
      body = Json (JObj [(lit ''error'', JStr message), (lit ''note'', JStr note_server_js)])\<rparr> \<and>
   reply (process_image Part_001 rt example_env (\<lambda>request. Rejected message) example_body) =
     \<lparr>status = 500, body = Json (JObj [(lit ''error'', JStr message)])\<rparr> \<and>
   reply (process_image Part_002 rt example_env (\<lambda>request. Rejected message) example_body) =
     \<lparr>status = 500, body = Json (JObj [(lit ''error'', JStr message)])\<rparr>"
  by code_simp

text \<open>
  Claim C7 says that a reply with a non-success status gives an error whose message carries
  the status code and the upstream message. part_002 never looks at the status nor at the
  \<open>error\<close> member of the reply: the response carries neither. server.js (as part_000) reports
  the upstream message without the status code, and answers 200 to a reply with a
  non-success status whose body has a candidate.
\<close>

theorem upstream_status_part_002_server_js:
  "reply (process_image Part_002 rt example_env
            (\<lambda>request. Response 429 (lit ''{\"error\":{\"code\":429,\"message\":\"quota\"}}'')) example_body) =
     \<lparr>status = 500, body = Json (JObj [(lit ''error'', JStr invalid_response_message)])\<rparr> \<and>
   reply (process_image Server_js rt example_env
            (\<lambda>request. Response 429 (lit ''{\"error\":{\"code\":429,\"message\":\"quota\"}}'')) example_body) =
     \<lparr>status = 500,
      body = Json (JObj [(lit ''error'', JStr (lit ''API Error: quota'')),
                         (lit ''note'', JStr note_server_js)])\<rparr> \<and>
   reply (process_image Server_js rt example_env
            (\<lambda>request. Response 503 (reply_with_text (lit ''[]''))) example_body) =
     \<lparr>status = 200, body = Json (JArr [])\<rparr>"
  by code_simp

subsection \<open>Values that are not arrays\<close>

text \<open>part_001 and part_002 return a parsed null with the status 200.\<close>

lemma null_value_part_001_part_002:
  "reply (process_image Part_001 rt example_env
            (\<lambda>request. Response 200 (reply_with_text (lit ''null''))) example_body) =
     \<lparr>status = 200, body = Json JNull\<rparr> \<and>
   reply (process_image Part_002 rt example_env
            (\<lambda>request. Response 200 (reply_with_text (lit ''null''))) example_body) =
     \<lparr>status = 200, body = Json JNull\<rparr>"
  by code_simp

text \<open>
  server.js returns an object, a string and a boolean with the status 200, and a number as
  the engine prints it.
\<close>

lemma non_array_values_server_js:
  "reply (process_image Server_js rt example_env
            (\<lambda>request. Response 200 (reply_with_text (lit ''{\"a\":\"b\"}''))) example_body) =
     \<lparr>status = 200, body = Json (JObj [(lit ''a'', JStr (lit ''b''))])\<rparr> \<and>
   reply (process_image Server_js rt example_env
            (\<lambda>request. Response 200 (reply_with_text (lit ''\"x\"''))) example_body) =
     \<lparr>status = 200, body = Json (JStr (lit ''x''))\<rparr> \<and>
   reply (process_image Server_js rt example_env
            (\<lambda>request. Response 200 (reply_with_text (lit ''true''))) example_body) =
     \<lparr>status = 200, body = Json (JBool True)\<rparr> \<and>
   reply (process_image Server_js example_runtime example_env
            (\<lambda>request. Response 200 (reply_with_text (lit ''40''))) example_body) =
     \<lparr>status = 200, body = Json (JNum (lit ''40''))\<rparr>"
  by code_simp

text \<open>
  Claim C9 says that any parsed value, null included, is returned with the status 200.
  In server.js (as in part_000) the log statement of line 153 reads \<^verbatim>\<open>parsed.length\<close>, which
  throws a TypeError where \<open>parsed\<close> is null: the response is a 500.
\<close>

theorem null_value_server_js:
  "JSON_parse (lit ''null'') = Some JNull \<and>
   reply (process_image Server_js rt example_env
            (\<lambda>request. Response 200 (reply_with_text (lit ''null''))) example_body) =
     \<lparr>status = 500,
      body = Json (JObj [(lit ''error'',
                          JStr (type_error_message rt (CannotRead (Some JNull) (Prop (lit ''length''))))),
                         (lit ''note'', JStr note_server_js)])\<rparr>"
  by code_simp

subsection \<open>The success path\<close>

text \<open>
  Claim C1 says that the value parsed from the generated text is returned unchanged, also
  where a string field contains backtick fence characters. The cleanup deletes every
  triple backtick of the text, inside string literals too: for the generated text
  \<^verbatim>\<open>[{"NOMBRE":"A```B"}]\<close> every file returns a record whose name is \<^verbatim>\<open>AB\<close>.
\<close>

theorem fence_inside_string_counterexample:
  "JSON_parse (lit ''[{\"NOMBRE\":\"A```B\"}]'') =
     Some (JArr [JObj [(lit ''NOMBRE'', JStr (lit ''A```B''))]]) \<and>
   map_option generatedText_of (JSON_parse (reply_with_text (lit ''[{\"NOMBRE\":\"A```B\"}]''))) =
     Some (Next (Some (JStr (lit ''[{\"NOMBRE\":\"A```B\"}]'')))) \<and>
   reply (process_image Server_js example_runtime example_env
            (\<lambda>request. Response 200 (reply_with_text (lit ''[{\"NOMBRE\":\"A```B\"}]''))) example_body) =
     \<lparr>status = 200, body = Json (JArr [JObj [(lit ''NOMBRE'', JStr (lit ''AB''))]])\<rparr> \<and>
   reply (process_image Part_001 example_runtime example_env
            (\<lambda>request. Response 200 (reply_with_text (lit ''[{\"NOMBRE\":\"A```B\"}]''))) example_body) =
     \<lparr>status = 200, body = Json (JArr [JObj [(lit ''NOMBRE'', JStr (lit ''AB''))]])\<rparr> \<and>
   reply (process_image Part_002 example_runtime example_env
            (\<lambda>request. Response 200 (reply_with_text (lit ''[{\"NOMBRE\":\"A```B\"}]''))) example_body) =
     \<lparr>status = 200, body = Json (JArr [JObj [(lit ''NOMBRE'', JStr (lit ''AB''))]])\<rparr>"
  by code_simp

text \<open>
  The success path of every file, for a request with an imageData string and a reply of the
  inference endpoint that is successful and that the log of server.js, part_000 and part_002
  can serialise: a generated text that the cleanup turns into a JSON text of value \<open>v\<close> is
  answered 200 with what \<^verbatim>\<open>JSON.stringify\<close> writes for \<open>v\<close>, and 500 where that serialisation
  exhausts the stack.
\<close>

lemma success_path:
  assumes key: "is_set (GEMINI_API_KEY e) \<or> (f = Server_js \<or> f = Part_000) \<and> is_set (GOOGLE_API_KEY e)"
    and image: "get (Some req_body) (Prop (lit ''imageData'')) = Next (Some (JStr d))" "d \<noteq> []"
    and up: "\<And>request. fetch request = Response st reply_text" "ok st"
    and reply: "JSON_parse reply_text = Some j" "successful_reply rt j t"
    and logged: "f \<noteq> Part_001 \<Longrightarrow> \<not> stringify_throws rt j"
    and parsed: "JSON_parse (cleanJson t) = Some v" "t \<noteq> []"
    and sent: "\<not> stringify_throws rt v"
    and not_null: "f = Server_js \<or> f = Part_000 \<Longrightarrow> v \<noteq> JNull"
  shows "\<exists>request. process_image f rt e fetch req_body =
           \<lparr>calls = [request], reply = \<lparr>status = 200, body = Json (as_written rt v)\<rparr>\<rparr>"
proof (cases f)
  case Server_js
  obtain request where "before_fetch_server_js f e req_body = Next request"
    using before_fetch_server_js_either_key [OF _ image(1)] key by blast
  then show ?thesis
    using Server_js after_fetch_server_js_ok [OF reply parsed(1) _ _ sent] not_null logged
    by (simp add: process_image_def handler_server_js_def serve_def finish_def up)
next
  case Part_000
  obtain request where "before_fetch_server_js f e req_body = Next request"
    using before_fetch_server_js_either_key [OF _ image(1)] key by blast
  then show ?thesis
    using Part_000 after_fetch_server_js_ok [OF reply parsed(1) _ _ sent] not_null logged
    by (simp add: process_image_def handler_server_js_def serve_def finish_def up)
next
  case Part_001
  then obtain k where k: "GEMINI_API_KEY e = Some k" "k \<noteq> []"
    using key by (cases "GEMINI_API_KEY e") (auto simp: is_set_def)
  obtain request where "before_fetch_part_001 rt e req_body = Next request"
    using before_fetch_ok(2) [OF k image] by blast
  then show ?thesis
    using Part_001 after_fetch_part_001_ok [OF reply parsed(1) up(2) parsed(2) sent]
    by (simp add: process_image_def handler_part_001_def serve_def finish_def up)
next
  case Part_002
  then obtain k where k: "GEMINI_API_KEY e = Some k" "k \<noteq> []"
    using key by (cases "GEMINI_API_KEY e") (auto simp: is_set_def)
  obtain request where "before_fetch_part_002 e req_body = Next request"
    using before_fetch_ok(3) [OF k image] by blast
  then show ?thesis
    using Part_002 after_fetch_part_002_ok [OF reply parsed(1) _ sent] logged
    by (simp add: process_image_def handler_part_002_def serve_def finish_def up)
qed

text \<open>
  With an engine that finds \<^verbatim>\<open>1e999\<close> not finite, the generated text \<^verbatim>\<open>[1e999]\<close> is answered
  with \<^verbatim>\<open>[null]\<close>; a generated text whose serialisation exhausts the stack is answered 500.
\<close>

lemma number_not_finite_part_002:
  assumes "number_to_json rt (lit ''1e999'') = None"
  shows "reply (process_image Part_002 rt example_env
            (\<lambda>request. Response 200 (reply_with_text (lit ''[1e999]''))) example_body) =
         \<lparr>status = 200, body = Json (JArr [JNull])\<rparr>"
proof -
  have "reply (process_image Part_002 rt example_env
            (\<lambda>request. Response 200 (reply_with_text (lit ''[1e999]''))) example_body) =
         \<lparr>status = 200, body = Json (as_written rt (JArr [JNum (lit ''1e999'')]))\<rparr>"
    by code_simp
  then show ?thesis using assms by simp
qed

lemma stack_exhausted_part_002:
  assumes key: "is_set (GEMINI_API_KEY e)"
    and image: "get (Some req_body) (Prop (lit ''imageData'')) = Next (Some (JStr d))" "d \<noteq> []"
    and up: "\<And>request. fetch request = Response st reply_text"
    and reply: "JSON_parse reply_text = Some j" "successful_reply rt j t"
    and logged: "\<not> stringify_throws rt j"
    and parsed: "JSON_parse (cleanJson t) = Some v"
    and sent: "stringify_throws rt v"
  shows "\<exists>request. process_image Part_002 rt e fetch req_body =
           \<lparr>calls = [request],
            reply = \<lparr>status = 500,
                     body = Json (JObj [(lit ''error'', JStr (range_error_message rt))])\<rparr>\<rparr>"
proof -
  obtain k where k: "GEMINI_API_KEY e = Some k" "k \<noteq> []"
    using key by (cases "GEMINI_API_KEY e") (auto simp: is_set_def)
  obtain request where rq: "before_fetch_part_002 e req_body = Next request"
    using before_fetch_ok(3) [OF k image] by blast
  have 0: "JSON_stringify rt j = Next (as_written rt j)"
    using logged by (simp add: JSON_stringify_def)
  have 1: "response_json request (Response st reply_text) = Next j"
    by (simp add: response_json_def reply(1))
  have 4: "JSON_parse (cleanJson (trim t)) = Some v" using parsed by (simp add: cleanJson_trim)
  have "after_fetch_part_002 rt request (Response st reply_text) = Thrown RangeError"
    by (simp add: after_fetch_part_002_def and_then_def 0 1 4 res_json_throws [OF sent]
        candidates_check_ok [OF reply(2)] blockReason_check_ok [OF reply(2)]
        finishReason_check_ok [OF reply(2)] rawText_of_ok [OF reply(2)])
  then show ?thesis
    using rq
    by (simp add: process_image_def handler_part_002_def serve_def finish_def up catch_plain_def
        respond_def error_body_def error_message_def)
qed

text \<open>
  Claim C1 as amended. The request is a valid submission (imageData is a non-empty string,
  mediaType a string or absent) and the file finds a key (GEMINI_API_KEY, or GOOGLE_API_KEY
  in server.js and part_000). The inference endpoint answers with a success status and a
  successful reply \<open>j\<close>, which \<^verbatim>\<open>JSON.stringify\<close> can serialise where the file logs it (every
  file but part_001). The generated text is a JSON text \<open>core\<close> that contains no triple
  backtick, alone or wrapped in an opening \<^verbatim>\<open>```json\<close> or \<^verbatim>\<open>```\<close>, a closing \<^verbatim>\<open>```\<close> and white
  space (\<open>core\<close> is the JSON text without the white space around it), and \<^verbatim>\<open>JSON.stringify\<close>
  can serialise its value \<open>v\<close>; in server.js and part_000 that value is not null. Then the
  file makes one upstream call and answers 200 with \<open>v\<close> as \<^verbatim>\<open>JSON.stringify\<close> writes it:
  the elements of every array in their order, none added and none removed, strings,
  booleans and null as they are, a number as the engine prints it, the members of an object
  by their names. Where every number of \<open>v\<close> is printed as it is written and the names of
  every object are distinct and no array indices, the response is exactly \<open>v\<close>.
\<close>

theorem wrapped_json_returned:
  assumes key: "is_set (GEMINI_API_KEY e) \<or> (f = Server_js \<or> f = Part_000) \<and> is_set (GOOGLE_API_KEY e)"
    and image: "get (Some req_body) (Prop (lit ''imageData'')) = Next (Some (JStr d))" "d \<noteq> []"
    and media: "get_opt (Some req_body) (Prop (lit ''mediaType'')) = None \<or>
                (\<exists>m. get_opt (Some req_body) (Prop (lit ''mediaType'')) = Some (JStr m))"
    and up: "\<And>request. fetch request = Response st reply_text" "ok st"
    and reply: "JSON_parse reply_text = Some j" "successful_reply rt j t"
    and logged: "f \<noteq> Part_001 \<Longrightarrow> \<not> stringify_throws rt j"
    and t: "t = w0 @ opening @ w1 @ core @ w2 @ closing @ w3"
    and white: "\<forall>c\<in>set (w0 @ w1 @ w2 @ w3). is_white_space c"
    and fences: "opening = [] \<or> opening = fence \<or> opening = fence_json"
      "closing = [] \<or> closing = fence"
    and core: "JSON_parse core = Some v" "trim core = core" "\<not> occurs fence core"
    and sent: "\<not> stringify_throws rt v"
    and not_null: "f = Server_js \<or> f = Part_000 \<Longrightarrow> v \<noteq> JNull"
  shows "(\<exists>request. process_image f rt e fetch req_body =
            \<lparr>calls = [request], reply = \<lparr>status = 200, body = Json (as_written rt v)\<rparr>\<rparr>) \<and>
         (unchanged rt v \<longrightarrow> as_written rt v = v)"
proof -
  note ends = json_text_ends [OF core(1,2)]
  have "cleanJson t = core"
    unfolding t using white fences ends core(3)
    by (intro cleanJson_wrapped) auto
  then have parsed: "JSON_parse (cleanJson t) = Some v" using core(1) by simp
  have tne: "t \<noteq> []" using t ends by simp
  have "\<exists>request. process_image f rt e fetch req_body =
          \<lparr>calls = [request], reply = \<lparr>status = 200, body = Json (as_written rt v)\<rparr>\<rparr>"
    using key image up reply logged parsed tne sent not_null by (rule success_path)
  then show ?thesis by (simp add: as_written_unchanged)
qed

text \<open>
  The end-to-end scenario of the specification in server.js, with GOOGLE_API_KEY as the only
  key of the environment, and the same record without fences in part_001.
\<close>

theorem wrapped_json_returned_witness:
  "reply (process_image Server_js example_runtime google_key_env
            (\<lambda>request. Response 200 (reply_with_text (fence_json @ [0x0A] @ ana_lopez @ [0x0A] @ fence)))
            example_body) =
     \<lparr>status = 200,
      body = Json (JArr [JObj [(lit ''FECHA'', JStr (lit ''2025/01/01'')),
                               (lit ''HORA'', JStr (lit ''09:00'')),
                               (lit ''NOMBRE'', JStr (lit ''ANA LOPEZ'')),
                               (lit ''IDENTIDAD'', JStr (lit ''12345'')),
                               (lit ''EDAD'', JStr (lit ''40''))]])\<rparr> \<and>
   reply (process_image Part_001 example_runtime example_env
            (\<lambda>request. Response 200 (reply_with_text ana_lopez)) example_body) =
     \<lparr>status = 200,
      body = Json (JArr [JObj [(lit ''FECHA'', JStr (lit ''2025/01/01'')),
                               (lit ''HORA'', JStr (lit ''09:00'')),
                               (lit ''NOMBRE'', JStr (lit ''ANA LOPEZ'')),
                               (lit ''IDENTIDAD'', JStr (lit ''12345'')),
                               (lit ''EDAD'', JStr (lit ''40''))]])\<rparr>"
proof -
  let ?t = "fence_json @ [0x0A] @ ana_lopez @ [0x0A] @ fence"
  let ?j = "\<lambda>t. JObj [(lit ''candidates'', JArr [JObj [(lit ''content'',
              JObj [(lit ''parts'', JArr [JObj [(lit ''text'', JStr t)]])])]])]"
  let ?v = "JArr [JObj [(lit ''FECHA'', JStr (lit ''2025/01/01'')),
                        (lit ''HORA'', JStr (lit ''09:00'')),
                        (lit ''NOMBRE'', JStr (lit ''ANA LOPEZ'')),
                        (lit ''IDENTIDAD'', JStr (lit ''12345'')),
                        (lit ''EDAD'', JStr (lit ''40''))]]"
  have key: "is_set (GEMINI_API_KEY google_key_env) \<or>
      (Server_js = Server_js \<or> Server_js = Part_000) \<and> is_set (GOOGLE_API_KEY google_key_env)"
    "is_set (GEMINI_API_KEY example_env) \<or>
      (Part_001 = Server_js \<or> Part_001 = Part_000) \<and> is_set (GOOGLE_API_KEY example_env)"
    by code_simp+
  have image: "get (Some example_body) (Prop (lit ''imageData'')) = Next (Some (JStr (lit ''aGk='')))"
    "lit ''aGk='' \<noteq> []"
    by code_simp+
  have media: "get_opt (Some example_body) (Prop (lit ''mediaType'')) = None \<or>
      (\<exists>m. get_opt (Some example_body) (Prop (lit ''mediaType'')) = Some (JStr m))"
  proof -
    have "get_opt (Some example_body) (Prop (lit ''mediaType'')) = Some (JStr (lit ''image/png''))"
      by code_simp
    then show ?thesis by simp
  qed
  have ok: "ok 200" by (simp add: ok_def)
  have reply: "JSON_parse (reply_with_text ?t) = Some (?j ?t)" "successful_reply example_runtime (?j ?t) ?t"
    "JSON_parse (reply_with_text ana_lopez) = Some (?j ana_lopez)"
    "successful_reply example_runtime (?j ana_lopez) ana_lopez"
    by code_simp+
  have logged: "\<not> stringify_throws example_runtime (?j ?t)"
    by (simp add: stringify_throws_def example_runtime_def)
  have t: "?t = [] @ fence_json @ [0x0A] @ ana_lopez @ [0x0A] @ fence @ []"
    "ana_lopez = [] @ [] @ [] @ ana_lopez @ [] @ [] @ []" by simp_all
  have white: "\<forall>c\<in>set ([] @ [0x0A] @ [0x0A] @ []). is_white_space c"
    "\<forall>c\<in>set ([] @ [] @ [] @ []). is_white_space c" by (simp_all add: is_white_space_def)
  have core: "JSON_parse ana_lopez = Some ?v" "trim ana_lopez = ana_lopez" "\<not> occurs fence ana_lopez"
    by code_simp+
  have sent: "\<not> stringify_throws example_runtime ?v"
    by (simp add: stringify_throws_def example_runtime_def)
  have unchanged: "unchanged example_runtime ?v" by code_simp
  have a: "(\<exists>request. process_image Server_js example_runtime google_key_env
          (\<lambda>request. Response 200 (reply_with_text ?t)) example_body =
        \<lparr>calls = [request], reply = \<lparr>status = 200, body = Json (as_written example_runtime ?v)\<rparr>\<rparr>) \<and>
        (unchanged example_runtime ?v \<longrightarrow> as_written example_runtime ?v = ?v)"
    by (rule wrapped_json_returned [OF key(1) image media _ ok reply(1,2) logged t(1) white(1) _ _ core sent])
      simp_all
  have b: "(\<exists>request. process_image Part_001 example_runtime example_env
          (\<lambda>request. Response 200 (reply_with_text ana_lopez)) example_body =
        \<lparr>calls = [request], reply = \<lparr>status = 200, body = Json (as_written example_runtime ?v)\<rparr>\<rparr>) \<and>
        (unchanged example_runtime ?v \<longrightarrow> as_written example_runtime ?v = ?v)"
    by (rule wrapped_json_returned [OF key(2) image media _ ok reply(3,4) _ t(2) white(2) _ _ core sent])
      simp_all
  show ?thesis using a b unchanged by auto
qed

end
